theory Spec2Isabelle
  imports Main "HOL-Library.Multiset"
begin

section \<open>Python values used by \<^verbatim>\<open>ics_repair.py\<close>\<close>

text \<open>
  The program works on objects of the \<^verbatim>\<open>icalendar\<close> library and on values of
  Python's \<^verbatim>\<open>datetime\<close> module. Both are outside the repository; they are modelled
  here as far as the program observes them.

  A \<^verbatim>\<open>date\<close> is a triple (year, month, day); a \<^verbatim>\<open>datetime\<close> adds a wall-clock
  time (hour, minute, second) and an optional \<^verbatim>\<open>tzinfo\<close>. A \<^verbatim>\<open>tzinfo\<close> is modelled
  by its UTC offset in seconds (a fixed-offset zone). A \<^verbatim>\<open>timedelta\<close> is a number of
  seconds: calendar files carry no sub-second resolution.
\<close>

type_synonym ymd = "int \<times> int \<times> int"
type_synonym hms = "int \<times> int \<times> int"
type_synonym tzinfo = int
type_synonym timedelta = int

datatype pydt = Date ymd | DateTime ymd hms "tzinfo option"

datatype py_error = TypeError | OSError

subsection \<open>Ordinals and subtraction\<close>

definition is_leap :: "int \<Rightarrow> bool" where
  "is_leap y = (y mod 4 = 0 \<and> (y mod 100 \<noteq> 0 \<or> y mod 400 = 0))"

definition days_before_year :: "int \<Rightarrow> int" where
  "days_before_year y = (y - 1) * 365 + (y - 1) div 4 - (y - 1) div 100 + (y - 1) div 400"

definition days_before_month :: "int \<Rightarrow> int \<Rightarrow> int" where
  "days_before_month y m =
     (if m \<le> 1 then 0 else if m = 2 then 31
      else (if m = 3 then 59 else if m = 4 then 90 else if m = 5 then 120
            else if m = 6 then 151 else if m = 7 then 181 else if m = 8 then 212
            else if m = 9 then 243 else if m = 10 then 273 else if m = 11 then 304
            else 334) + (if is_leap y then 1 else 0))"

fun ymd2ord :: "ymd \<Rightarrow> int" where
  "ymd2ord (y, m, d) = days_before_year y + days_before_month y m + d"

fun hms2sec :: "hms \<Rightarrow> int" where
  "hms2sec (h, mi, s) = h * 3600 + mi * 60 + s"

text \<open>
  \<^verbatim>\<open>a - b\<close> on dates and datetimes. Two dates give whole days. Two datetimes must be both
  naive or both aware, otherwise Python raises \<^verbatim>\<open>TypeError\<close>; aware operands are
  compared after removing their UTC offsets. A date and a datetime cannot be subtracted.
\<close>

fun py_sub :: "pydt \<Rightarrow> pydt \<Rightarrow> py_error + timedelta" where
  "py_sub (Date a) (Date b) = Inr ((ymd2ord a - ymd2ord b) * 86400)"
| "py_sub (DateTime a ta None) (DateTime b tb None) =
     Inr ((ymd2ord a * 86400 + hms2sec ta) - (ymd2ord b * 86400 + hms2sec tb))"
| "py_sub (DateTime a ta (Some za)) (DateTime b tb (Some zb)) =
     Inr ((ymd2ord a * 86400 + hms2sec ta - za) - (ymd2ord b * 86400 + hms2sec tb - zb))"
| "py_sub _ _ = Inl TypeError"

text \<open>\<^verbatim>\<open>isinstance(x, date) and not isinstance(x, datetime)\<close>\<close>

fun is_date :: "pydt \<Rightarrow> bool" where
  "is_date (Date _) = True"
| "is_date (DateTime _ _ _) = False"

text \<open>\<^verbatim>\<open>x.tzinfo\<close> of a datetime (a date has no such attribute: \<^verbatim>\<open>AttributeError\<close>,
  which the program only reads from a value that is not a date).\<close>

fun tzinfo_of :: "pydt \<Rightarrow> tzinfo option" where
  "tzinfo_of (DateTime _ _ z) = z"
| "tzinfo_of (Date _) = None"

text \<open>\<^verbatim>\<open>datetime.combine(d, datetime.min.time(), tzinfo=z)\<close>: midnight of the date.\<close>

fun combine_midnight :: "pydt \<Rightarrow> tzinfo option \<Rightarrow> pydt" where
  "combine_midnight (Date d) z = DateTime d (0, 0, 0) z"
| "combine_midnight (DateTime d t _) z = DateTime d (0, 0, 0) z"

subsection \<open>Text\<close>

definition digit_char :: "nat \<Rightarrow> char" where
  "digit_char n = ''0123456789'' ! (n mod 10)"

fun dec :: "nat \<Rightarrow> string" where
  "dec n = (if n < 10 then [digit_char n] else dec (n div 10) @ [digit_char n])"

text \<open>\<^verbatim>\<open>"%0kd" % n\<close> for a non-negative \<open>n\<close>.\<close>

definition pad :: "nat \<Rightarrow> int \<Rightarrow> string" where
  "pad k n = (let s = dec (nat n) in replicate (k - length s) CHR ''0'' @ s)"

definition dec_int :: "int \<Rightarrow> string" where
  "dec_int n = (if n < 0 then CHR ''-'' # dec (nat (- n)) else dec (nat n))"

text \<open>\<^verbatim>\<open>str(td)\<close> of a timedelta: \<^verbatim>\<open>[D day[s], ]H:MM:SS\<close> with the days floored.\<close>

definition str_timedelta :: "timedelta \<Rightarrow> string" where
  "str_timedelta td =
     (let days = td div 86400; secs = td mod 86400;
          hh = secs div 3600; mm = (secs div 60) mod 60; ss = secs mod 60;
          s = dec_int hh @ '':'' @ pad 2 mm @ '':'' @ pad 2 ss
      in if days \<noteq> 0
         then dec_int days @ '' day'' @ (if \<bar>days\<bar> \<noteq> 1 then ''s'' else '''') @ '', '' @ s
         else s)"

text \<open>\<^verbatim>\<open>f"{duration}"\<close> where duration is \<^verbatim>\<open>None\<close> or a timedelta.\<close>

fun str_duration :: "timedelta option \<Rightarrow> string" where
  "str_duration None = ''None''"
| "str_duration (Some td) = str_timedelta td"

text \<open>The UTC offset as \<^verbatim>\<open>isoformat\<close> prints it: \<^verbatim>\<open>+HH:MM\<close>, with \<^verbatim>\<open>:SS\<close> when not zero.\<close>

definition format_offset :: "tzinfo option \<Rightarrow> string" where
  "format_offset z =
     (case z of None \<Rightarrow> ''''
      | Some off \<Rightarrow>
          (let a = \<bar>off\<bar>; hh = a div 3600; mm = (a div 60) mod 60; ss = a mod 60
           in (if off < 0 then ''-'' else ''+'') @ pad 2 hh @ '':'' @ pad 2 mm
              @ (if ss \<noteq> 0 then '':'' @ pad 2 ss else '''')))"

fun isoformat :: "pydt \<Rightarrow> string" where
  "isoformat (Date (y, m, d)) = pad 4 y @ ''-'' @ pad 2 m @ ''-'' @ pad 2 d"
| "isoformat (DateTime (y, m, d) (h, mi, s) z) =
     pad 4 y @ ''-'' @ pad 2 m @ ''-'' @ pad 2 d @ ''T''
     @ pad 2 h @ '':'' @ pad 2 mi @ '':'' @ pad 2 s @ format_offset z"

text \<open>\<^verbatim>\<open>str.strip()\<close>, \<^verbatim>\<open>str.lower()\<close>, \<^verbatim>\<open>str.upper()\<close> and
  \<^verbatim>\<open>str.replace(' ', '_')\<close> on ASCII text.\<close>

definition is_space :: "char \<Rightarrow> bool" where
  "is_space c = (let n = (of_char c :: nat) in n = 32 \<or> (9 \<le> n \<and> n \<le> 13) \<or> (28 \<le> n \<and> n \<le> 31))"

definition strip :: "string \<Rightarrow> string" where
  "strip s = rev (dropWhile is_space (rev (dropWhile is_space s)))"

definition lower_char :: "char \<Rightarrow> char" where
  "lower_char c =
     (case map_of (zip ''ABCDEFGHIJKLMNOPQRSTUVWXYZ'' ''abcdefghijklmnopqrstuvwxyz'') c of
        Some d \<Rightarrow> d | None \<Rightarrow> c)"

definition upper_char :: "char \<Rightarrow> char" where
  "upper_char c =
     (case map_of (zip ''abcdefghijklmnopqrstuvwxyz'' ''ABCDEFGHIJKLMNOPQRSTUVWXYZ'') c of
        Some d \<Rightarrow> d | None \<Rightarrow> c)"

definition lower :: "string \<Rightarrow> string" where
  "lower s = map lower_char s"

definition upper :: "string \<Rightarrow> string" where
  "upper s = map upper_char s"

definition replace_space :: "string \<Rightarrow> string" where
  "replace_space s = map (\<lambda>c. if c = CHR '' '' then CHR ''_'' else c) s"

section \<open>Calendar objects\<close>

text \<open>
  An \<^verbatim>\<open>Event\<close> is a case-insensitive dictionary from property names to values. The
  program reads seven keys; they are the fields of the record, absent keys are \<open>None\<close>,
  and every other property of the event is kept in \<open>other\<close>.
  \<^verbatim>\<open>SUMMARY\<close>, \<^verbatim>\<open>LOCATION\<close> and \<^verbatim>\<open>UID\<close> hold text, \<^verbatim>\<open>DTSTART\<close>,
  \<^verbatim>\<open>DTEND\<close> and \<^verbatim>\<open>RECURRENCE-ID\<close> hold a value whose \<^verbatim>\<open>.dt\<close> is a date or a
  datetime.
\<close>

record event =
  SUMMARY :: "string option"
  LOCATION :: "string option"
  DTSTART :: "pydt option"
  DTEND :: "pydt option"
  UID :: "string option"
  RRULE :: "string option"
  RECURRENCE_ID :: "pydt option"
  other :: "(string \<times> string) list"

text \<open>
  A calendar has document-level properties and subcomponents: events, and components of
  other kinds (\<^verbatim>\<open>VTIMEZONE\<close>, \<^verbatim>\<open>VTODO\<close>, ...), kept with their name and their
  properties. Components inside components are not modelled. A property list may hold a
  key more than once.
\<close>

datatype propval = Text string | Temporal pydt

datatype component = VEVENT event | Other_Component string "(string \<times> propval) list"

record calendar =
  properties :: "(string \<times> propval) list"
  subcomponents :: "component list"

text \<open>What the program reports through \<^verbatim>\<open>log\<close>, one constructor per call site.\<close>

datatype report =
    Duration_Failed string
  | No_DTSTART "string option"
  | Info_Processing string
  | Read_Failed string
  | Unclosed_Block string
  | No_Blocks string
  | Chunk_Unparsed nat string
  | No_Valid_Calendars string
  | No_Calendar_Object string
  | Backup_Created string
  | Backup_Failed string
  | Overwritten string
  | Write_Failed string

section \<open>\<^verbatim>\<open>series_key\<close>\<close>

type_synonym series_key = "string \<times> string \<times> timedelta option"

text \<open>\<^verbatim>\<open>str(ev.get(k, '')).strip()\<close>\<close>

definition text_or_empty :: "string option \<Rightarrow> string" where
  "text_or_empty v = strip (case v of None \<Rightarrow> '''' | Some s \<Rightarrow> s)"

text \<open>
  The body of the \<^verbatim>\<open>try\<close> block of \<^verbatim>\<open>series_key\<close>, for the two \<^verbatim>\<open>.dt\<close> values:
  a date on one side only is promoted to midnight with the other side's \<^verbatim>\<open>tzinfo\<close>, then
  the end minus the start is taken. \<open>Inl\<close> is the exception the block may raise.
\<close>

definition try_duration :: "pydt \<Rightarrow> pydt \<Rightarrow> py_error + timedelta" where
  "try_duration dtstart dtend =
     (let is_start_date = is_date dtstart; is_end_date = is_date dtend
      in if is_start_date \<and> \<not> is_end_date
         then py_sub dtend (combine_midnight dtstart (tzinfo_of dtend))
         else if \<not> is_start_date \<and> is_end_date
         then py_sub (combine_midnight dtend (tzinfo_of dtstart)) dtstart
         else py_sub dtend dtstart)"

text \<open>The duration component: \<^verbatim>\<open>None\<close> unless both bounds are present; on an exception
  the handler assigns \<^verbatim>\<open>timedelta(0)\<close>.\<close>

definition duration_of :: "event \<Rightarrow> timedelta option" where
  "duration_of ev =
     (case (DTSTART ev, DTEND ev) of
        (Some dtstart, Some dtend) \<Rightarrow>
          (case try_duration dtstart dtend of Inr d \<Rightarrow> Some d | Inl e \<Rightarrow> Some 0)
      | _ \<Rightarrow> None)"

definition series_key :: "event \<Rightarrow> series_key" where
  "series_key ev = (text_or_empty (SUMMARY ev), text_or_empty (LOCATION ev), duration_of ev)"

text \<open>The warnings \<^verbatim>\<open>series_key\<close> logs while computing the key of an event.\<close>

definition series_key_log :: "event \<Rightarrow> report list" where
  "series_key_log ev =
     (case (DTSTART ev, DTEND ev) of
        (Some dtstart, Some dtend) \<Rightarrow>
          (case try_duration dtstart dtend of
             Inr d \<Rightarrow> []
           | Inl e \<Rightarrow> [Duration_Failed (text_or_empty (SUMMARY ev))])
      | _ \<Rightarrow> [])"

section \<open>\<^verbatim>\<open>process_calendars\<close>\<close>

subsection \<open>Library calls on components\<close>

text \<open>
  \<^verbatim>\<open>Component.property_items(recursive=True, sorted=True)\<close> is called with its defaults:
  it returns the pair \<^verbatim>\<open>('BEGIN', name)\<close>, the component's own properties, then the
  \<^verbatim>\<open>property_items()\<close> of every subcomponent in turn, then \<^verbatim>\<open>('END', name)\<close>.
  The library orders the names of one component by its own sort; the lists below follow
  the record instead, and the statements about them speak of membership only.
\<close>

definition opt_item :: "string \<Rightarrow> 'a option \<Rightarrow> ('a \<Rightarrow> propval) \<Rightarrow> (string \<times> propval) list" where
  "opt_item k v f = (case v of None \<Rightarrow> [] | Some x \<Rightarrow> [(k, f x)])"

definition event_items :: "event \<Rightarrow> (string \<times> propval) list" where
  "event_items ev =
     opt_item ''SUMMARY'' (SUMMARY ev) Text @ opt_item ''LOCATION'' (LOCATION ev) Text
     @ opt_item ''DTSTART'' (DTSTART ev) Temporal @ opt_item ''DTEND'' (DTEND ev) Temporal
     @ opt_item ''UID'' (UID ev) Text @ opt_item ''RRULE'' (RRULE ev) Text
     @ opt_item ''RECURRENCE-ID'' (RECURRENCE_ID ev) Temporal
     @ map (\<lambda>(k, v). (k, Text v)) (other ev)"

fun component_items :: "component \<Rightarrow> (string \<times> propval) list" where
  "component_items (VEVENT ev) =
     (''BEGIN'', Text ''VEVENT'') # event_items ev @ [(''END'', Text ''VEVENT'')]"
| "component_items (Other_Component n ps) = (''BEGIN'', Text n) # ps @ [(''END'', Text n)]"

definition property_items :: "calendar \<Rightarrow> (string \<times> propval) list" where
  "property_items cal =
     (''BEGIN'', Text ''VCALENDAR'') # properties cal
     @ concat (map component_items (subcomponents cal)) @ [(''END'', Text ''VCALENDAR'')]"

text \<open>\<^verbatim>\<open>cal.walk('VEVENT')\<close>, kept where \<^verbatim>\<open>isinstance(component, Event)\<close>.\<close>

fun walk_vevent :: "component list \<Rightarrow> event list" where
  "walk_vevent [] = []"
| "walk_vevent (VEVENT ev # cs) = ev # walk_vevent cs"
| "walk_vevent (Other_Component n ps # cs) = walk_vevent cs"

subsection \<open>Header\<close>

definition component_names :: "string list" where
  "component_names = [''VEVENT'', ''VTODO'', ''VJOURNAL'', ''VFREEBUSY'', ''VTIMEZONE'', ''VALARM'']"

text \<open>The loop over \<^verbatim>\<open>first_cal.property_items()\<close>: \<^verbatim>\<open>merged.add(key, value)\<close> for every
  pair whose upper-cased key is not a component name.\<close>

definition header_copy :: "calendar \<Rightarrow> (string \<times> propval) list" where
  "header_copy first_cal =
     filter (\<lambda>(key, v). upper key \<notin> set component_names) (property_items first_cal)"

subsection \<open>Grouping\<close>

text \<open>
  \<^verbatim>\<open>groups\<close> is a \<^verbatim>\<open>defaultdict(list)\<close>, iterated in the order its keys were first
  inserted: an association list. A list of a group only exists from the append of its
  first event on, so it is kept as that first event and the rest.
\<close>

type_synonym groups = "(series_key \<times> event \<times> event list) list"

fun add_to_group :: "series_key \<Rightarrow> event \<Rightarrow> groups \<Rightarrow> groups" where
  "add_to_group k ev [] = [(k, ev, [])]"
| "add_to_group k ev ((k', first, rest) # gs) =
     (if k' = k then (k', first, rest @ [ev]) # gs else (k', first, rest) # add_to_group k ev gs)"

definition all_events :: "calendar list \<Rightarrow> event list" where
  "all_events calendars = concat (map (\<lambda>cal. walk_vevent (subcomponents cal)) calendars)"

definition group_events :: "event list \<Rightarrow> groups" where
  "group_events evs = foldl (\<lambda>gs ev. add_to_group (series_key ev) ev gs) [] evs"

subsection \<open>Master and identifier\<close>

definition has_rrule :: "event \<Rightarrow> bool" where
  "has_rrule ev = (RRULE ev \<noteq> None)"

text \<open>The first event of the list with \<^verbatim>\<open>'RRULE' in ev\<close>, else \<^verbatim>\<open>ev_list[0]\<close>.\<close>

definition select_master :: "event \<Rightarrow> event list \<Rightarrow> event" where
  "select_master first rest =
     (case find has_rrule (first # rest) of Some m \<Rightarrow> m | None \<Rightarrow> first)"

fun synth_uid :: "series_key \<Rightarrow> string" where
  "synth_uid (summary, location, duration) =
     lower (replace_space (summary @ ''-'' @ location @ ''-'' @ str_duration duration))
     @ ''@fixed.by.script''"

text \<open>\<^verbatim>\<open>uid = master.get('UID')\<close>, replaced by the synthesized one when it is falsy
  (absent or the empty string).\<close>

definition canonical_uid :: "series_key \<Rightarrow> event \<Rightarrow> string" where
  "canonical_uid key master =
     (case UID master of
        None \<Rightarrow> synth_uid key
      | Some u \<Rightarrow> if u = [] then synth_uid key else u)"

fun process_group :: "series_key \<times> event \<times> event list \<Rightarrow> event list" where
  "process_group (key, first, rest) =
     (let master = select_master first rest;
          uid = canonical_uid key master
      in map (\<lambda>ev. ev\<lparr>UID := Some uid\<rparr>) (first # rest))"

definition final_events :: "groups \<Rightarrow> event list" where
  "final_events gs = concat (map process_group gs)"

subsection \<open>Deduplication\<close>

type_synonym event_signature = "string option \<times> string"

definition event_signature_date :: "event \<Rightarrow> pydt \<Rightarrow> string" where
  "event_signature_date ev dtstart =
     (case RECURRENCE_ID ev of Some r \<Rightarrow> isoformat r | None \<Rightarrow> isoformat dtstart)"

record merge_state =
  components :: "event list"
  added_events :: "event_signature set"
  warnings :: "report list"

definition dedup_step :: "merge_state \<Rightarrow> event \<Rightarrow> merge_state" where
  "dedup_step st ev =
     (case DTSTART ev of
        None \<Rightarrow> st\<lparr>warnings := warnings st @ [No_DTSTART (SUMMARY ev)]\<rparr>
      | Some dtstart \<Rightarrow>
          (let event_signature = (UID ev, event_signature_date ev dtstart)
           in if event_signature \<notin> added_events st
              then st\<lparr>components := components st @ [ev],
                      added_events := insert event_signature (added_events st)\<rparr>
              else st))"

definition dedup :: "event list \<Rightarrow> merge_state" where
  "dedup evs = foldl dedup_step \<lparr>components = [], added_events = {}, warnings = []\<rparr> evs"

subsection \<open>The merger\<close>

text \<open>\<open>None\<close> is Python's \<^verbatim>\<open>None\<close> for an empty input; otherwise the merged calendar and
  what was logged on the way.\<close>

definition process_calendars :: "calendar list \<Rightarrow> (calendar \<times> report list) option" where
  "process_calendars calendars =
     (case calendars of
        [] \<Rightarrow> None
      | first_cal # _ \<Rightarrow>
          (let evs = all_events calendars;
               gs = group_events evs;
               st = dedup (final_events gs)
           in Some (\<lparr>properties = header_copy first_cal,
                      subcomponents = map VEVENT (components st)\<rparr>,
                    concat (map series_key_log evs) @ warnings st)))"

text \<open>The events of the merged calendar.\<close>

definition output_events :: "calendar list \<Rightarrow> event list" where
  "output_events calendars = components (dedup (final_events (group_events (all_events calendars))))"

section \<open>Files\<close>

text \<open>
  The file system is a map from paths to contents; every call that touches it is appended
  to a trace, and every log line to \<open>logged\<close>. The calls that can fail take their outcome
  from the environment: a read that raises \<^verbatim>\<open>IOError\<close>, a \<^verbatim>\<open>shutil.copy2\<close> that raises
  (leaving nothing or a partial copy at the destination), an \<^verbatim>\<open>open('wb')\<close> or a
  \<^verbatim>\<open>write\<close> that raises. The parser \<^verbatim>\<open>Calendar.from_ical\<close> and the serializer
  \<^verbatim>\<open>to_ical(sorted=True)\<close> belong to the library and are parameters; \<open>None\<close> is
  an exception.
\<close>

type_synonym bytes = string
type_synonym path = string

datatype io_op = Op_Read path | Op_Copy path path | Op_Open_Write path | Op_Write path bytes

datatype copy_fault = Copy_OK | Copy_Fails "bytes option"

datatype write_fault = Write_OK | Open_Fails | Write_Fails bytes

record env =
  from_ical :: "bytes \<Rightarrow> calendar option"
  to_ical :: "calendar \<Rightarrow> bytes option"
  read_fault :: bool
  copy_fault :: copy_fault
  write_fault :: write_fault

record world =
  files :: "path \<Rightarrow> bytes option"
  trace :: "io_op list"
  logged :: "report list"

definition say :: "report list \<Rightarrow> world \<Rightarrow> world" where
  "say rs w = w\<lparr>logged := logged w @ rs\<rparr>"

definition did :: "io_op \<Rightarrow> world \<Rightarrow> world" where
  "did op w = w\<lparr>trace := trace w @ [op]\<rparr>"

subsection \<open>\<^verbatim>\<open>read_file_chunks\<close>\<close>

definition marker :: bytes where
  "marker = ''BEGIN:VCALENDAR''"

definition end_marker :: bytes where
  "end_marker = ''END:VCALENDAR''"

text \<open>\<^verbatim>\<open>raw.find(sub, start)\<close>: the lowest index from \<open>start\<close> on where \<open>sub\<close> begins;
  \<open>None\<close> is \<^verbatim>\<open>-1\<close>.\<close>

fun find_at :: "bytes \<Rightarrow> bytes \<Rightarrow> nat \<Rightarrow> nat option" where
  "find_at sub [] i = (if sub = [] then Some i else None)"
| "find_at sub (c # cs) i =
     (if take (length sub) (c # cs) = sub then Some i else find_at sub cs (Suc i))"

definition bytes_find :: "bytes \<Rightarrow> bytes \<Rightarrow> nat \<Rightarrow> nat option" where
  "bytes_find raw sub start =
     (if start \<le> length raw then find_at sub (drop start raw) start else None)"

text \<open>The \<^verbatim>\<open>while True\<close> loop: the chunks found from \<open>start\<close> on, and whether it stopped
  at a block without a closing tag (the warning of that branch).\<close>

function chunks_loop :: "bytes \<Rightarrow> nat \<Rightarrow> bytes list \<times> bool" where
  "chunks_loop raw start =
     (case bytes_find raw marker start of
        None \<Rightarrow> ([], False)
      | Some idx \<Rightarrow>
          (case bytes_find raw end_marker idx of
             None \<Rightarrow> ([], True)
           | Some end' \<Rightarrow>
               (let chunk = drop idx (take (end' + length end_marker) raw);
                    (chunks, unclosed) = chunks_loop raw (end' + length end_marker)
                in (chunk # chunks, unclosed))))"
  by pat_completeness auto
termination
proof (relation "measure (\<lambda>(raw, start). Suc (length raw) - start)", goal_cases)
  case 1
  show ?case by simp
next
  case (2 raw start idx end')
  have at: "i \<le> j \<and> j + length sub \<le> i + length cs"
    if "find_at sub cs i = Some j" for sub cs i j
    using that
  proof (induction cs arbitrary: i)
    case Nil
    then show ?case by (simp split: if_splits)
  next
    case (Cons c cs)
    show ?case
    proof (cases "take (length sub) (c # cs) = sub")
      case True
      then have "length (take (length sub) (c # cs)) = length sub" by simp
      then have "length sub \<le> length (c # cs)" by simp
      with True Cons.prems show ?thesis by simp
    next
      case False
      with Cons.prems have "find_at sub cs (Suc i) = Some j" by simp
      from Cons.IH [OF this] show ?thesis by simp
    qed
  qed
  have found: "from \<le> j \<and> j + length sub \<le> length raw"
    if "bytes_find raw sub from = Some j" for sub "from" j
    using that unfolding bytes_find_def by (auto split: if_splits dest!: at)
  have "length end_marker = 13" by (simp add: end_marker_def)
  with found [OF 2(1)] found [OF 2(2)]
  have "start < end' + length end_marker" and "end' + length end_marker \<le> length raw"
    by linarith+
  then show ?case by simp
qed

declare chunks_loop.simps [simp del]

definition read_file_chunks :: "env \<Rightarrow> world \<Rightarrow> path \<Rightarrow> bytes list \<times> world" where
  "read_file_chunks e w file_path =
     (case (if read_fault e then None else files w file_path) of
        None \<Rightarrow> ([], say [Read_Failed file_path] (did (Op_Read file_path) w))
      | Some raw \<Rightarrow>
          (let (chunks, unclosed) = chunks_loop raw 0
           in (chunks,
               say ((if unclosed then [Unclosed_Block file_path] else [])
                    @ (if chunks = [] then [No_Blocks file_path] else []))
                 (did (Op_Read file_path) w))))"

subsection \<open>\<^verbatim>\<open>parse_chunks\<close>\<close>

text \<open>The loop over \<^verbatim>\<open>enumerate(chunks, start=1)\<close>, from index \<open>i\<close> on.\<close>

fun parse_from :: "(bytes \<Rightarrow> calendar option) \<Rightarrow> string \<Rightarrow> nat \<Rightarrow> bytes list \<Rightarrow> calendar list \<times> report list" where
  "parse_from parse filename i [] = ([], [])"
| "parse_from parse filename i (chunk # chunks) =
     (let (calendars, errs) = parse_from parse filename (Suc i) chunks
      in case parse chunk of
           Some cal \<Rightarrow> (cal # calendars, errs)
         | None \<Rightarrow> (calendars, Chunk_Unparsed i filename # errs))"

definition parse_chunks :: "env \<Rightarrow> bytes list \<Rightarrow> string \<Rightarrow> calendar list \<times> report list" where
  "parse_chunks e chunks filename = parse_from (from_ical e) filename 1 chunks"

subsection \<open>\<^verbatim>\<open>process_file\<close>\<close>

definition backup_path :: "path \<Rightarrow> path" where
  "backup_path file_path = file_path @ ''.backup''"

text \<open>\<^verbatim>\<open>shutil.copy2(src, dst)\<close>: whether it returned, and the world it leaves.\<close>

definition copy2 :: "env \<Rightarrow> world \<Rightarrow> path \<Rightarrow> path \<Rightarrow> bool \<times> world" where
  "copy2 e w src dst =
     (let w' = did (Op_Copy src dst) w
      in case copy_fault e of
           Copy_Fails None \<Rightarrow> (False, w')
         | Copy_Fails (Some part) \<Rightarrow> (False, w'\<lparr>files := (files w')(dst \<mapsto> part)\<rparr>)
         | Copy_OK \<Rightarrow>
             (case files w src of
                None \<Rightarrow> (False, w')
              | Some content \<Rightarrow> (True, w'\<lparr>files := (files w')(dst \<mapsto> content)\<rparr>)))"

text \<open>The second \<^verbatim>\<open>try\<close> block: \<^verbatim>\<open>open('wb')\<close> truncates the file, then the calendar
  is serialized and written.\<close>

definition overwrite :: "env \<Rightarrow> world \<Rightarrow> path \<Rightarrow> calendar \<Rightarrow> world" where
  "overwrite e w file_path fixed_cal =
     (let opened = did (Op_Open_Write file_path) w;
          w1 = opened\<lparr>files := (files w)(file_path \<mapsto> [])\<rparr>
      in case write_fault e of
           Open_Fails \<Rightarrow> say [Write_Failed file_path] opened
         | Write_Fails part \<Rightarrow>
             (case to_ical e fixed_cal of
                None \<Rightarrow> say [Write_Failed file_path] w1
              | Some out \<Rightarrow>
                  say [Write_Failed file_path]
                    ((did (Op_Write file_path part) w1)\<lparr>files := (files w1)(file_path \<mapsto> part)\<rparr>))
         | Write_OK \<Rightarrow>
             (case to_ical e fixed_cal of
                None \<Rightarrow> say [Write_Failed file_path] w1
              | Some out \<Rightarrow>
                  say [Overwritten file_path]
                    ((did (Op_Write file_path out) w1)\<lparr>files := (files w1)(file_path \<mapsto> out)\<rparr>)))"

text \<open>From the backup on: the persistence stage.\<close>

definition persist :: "env \<Rightarrow> world \<Rightarrow> path \<Rightarrow> calendar \<Rightarrow> world" where
  "persist e w file_path fixed_cal =
     (case copy2 e w file_path (backup_path file_path) of
        (False, w') \<Rightarrow> say [Backup_Failed file_path] w'
      | (True, w') \<Rightarrow> overwrite e (say [Backup_Created (backup_path file_path)] w') file_path fixed_cal)"

definition process_file :: "env \<Rightarrow> world \<Rightarrow> path \<Rightarrow> world" where
  "process_file e w file_path =
     (let (chunks, w1) = read_file_chunks e (say [Info_Processing file_path] w) file_path
      in if chunks = [] then w1
         else
           (let (calendars, errs) = parse_chunks e chunks file_path;
                w2 = say errs w1
            in if calendars = [] then say [No_Valid_Calendars file_path] w2
               else
                 (case process_calendars calendars of
                    None \<Rightarrow> say [No_Calendar_Object file_path] w2
                  | Some (fixed_cal, warns) \<Rightarrow> persist e (say warns w2) file_path fixed_cal)))"

section \<open>Notions used to state the properties\<close>

text \<open>The effective date of an event: its \<^verbatim>\<open>RECURRENCE-ID\<close> timestamp if present, else
  its \<^verbatim>\<open>DTSTART\<close> timestamp.\<close>

definition effective_date :: "event \<Rightarrow> pydt option" where
  "effective_date ev = (case RECURRENCE_ID ev of Some r \<Rightarrow> Some r | None \<Rightarrow> DTSTART ev)"

text \<open>The tuple the deduplication loop computes for an event that has a \<^verbatim>\<open>DTSTART\<close>.\<close>

definition signature_of :: "event \<Rightarrow> event_signature option" where
  "signature_of ev =
     (case DTSTART ev of
        None \<Rightarrow> None
      | Some dtstart \<Rightarrow> Some (UID ev, event_signature_date ev dtstart))"

text \<open>The events of one series, in flattening order, and the series keys in the order of
  their first appearance.\<close>

definition series_of :: "event list \<Rightarrow> series_key \<Rightarrow> event list" where
  "series_of evs k = filter (\<lambda>ev. series_key ev = k) evs"

definition first_keys :: "event list \<Rightarrow> series_key list" where
  "first_keys evs = rev (remdups (rev (map series_key evs)))"

definition grouped_order :: "event list \<Rightarrow> event list" where
  "grouped_order evs = concat (map (series_of evs) (first_keys evs))"

text \<open>The identifier of the series with key \<open>k\<close>: the canonical one of its master.\<close>

definition group_uid :: "event list \<Rightarrow> series_key \<Rightarrow> string" where
  "group_uid evs k =
     (case series_of evs k of
        [] \<Rightarrow> synth_uid k
      | first # rest \<Rightarrow> canonical_uid k (select_master first rest))"

definition relabel :: "event list \<Rightarrow> event \<Rightarrow> event" where
  "relabel evs ev = ev\<lparr>UID := Some (group_uid evs (series_key ev))\<rparr>"

text \<open>The event at index \<open>i\<close> of a list is the first one of its signature.\<close>

definition kept :: "event list \<Rightarrow> nat \<Rightarrow> bool" where
  "kept evs i =
     (DTSTART (evs ! i) \<noteq> None \<and> signature_of (evs ! i) \<notin> signature_of ` set (take i evs))"

text \<open>A date bound next to a datetime bound, promoted as the specification says: to
  midnight, with the other bound's timezone.\<close>

definition promote :: "pydt \<Rightarrow> pydt \<Rightarrow> pydt" where
  "promote x y =
     (if is_date x \<and> \<not> is_date y then combine_midnight x (tzinfo_of y) else x)"

text \<open>An event that master selection can pick in its series: one with \<^verbatim>\<open>RRULE\<close>, or any
  event of a series that has none with \<^verbatim>\<open>RRULE\<close>.\<close>

definition eligible :: "event list \<Rightarrow> event \<Rightarrow> bool" where
  "eligible evs ev =
     (has_rrule ev \<or> \<not> (\<exists>x \<in> set evs. series_key x = series_key ev \<and> has_rrule x))"

text \<open>The events that master selection can pick in one series agree on the identifier
  they would give to it.\<close>

definition masters_agree :: "event list \<Rightarrow> bool" where
  "masters_agree evs =
     (\<forall>e1 \<in> set evs. \<forall>e2 \<in> set evs.
        series_key e1 = series_key e2 \<and> eligible evs e1 \<and> eligible evs e2 \<longrightarrow>
        canonical_uid (series_key e1) e1 = canonical_uid (series_key e2) e2)"

text \<open>The signatures of the events of the merged calendar (each of them has one).\<close>

definition output_signatures :: "calendar list \<Rightarrow> event_signature option set" where
  "output_signatures calendars = signature_of ` set (output_events calendars)"

subsection \<open>The specification's wording, for comparison\<close>

text \<open>Deduplication as the specification words it: over the events in flattening order,
  each with the identifier of its series.\<close>

definition flattening_order_dedup :: "calendar list \<Rightarrow> event list" where
  "flattening_order_dedup calendars =
     components (dedup (map (relabel (all_events calendars)) (all_events calendars)))"

text \<open>The synthesized identifier as the specification words it: the textual forms of
  summary, location and duration joined by underscores, in lower case, with the suffix.\<close>

definition spec_synth_uid :: "series_key \<Rightarrow> string" where
  "spec_synth_uid k =
     (case k of (summary, location, duration) \<Rightarrow>
        lower (summary @ ''_'' @ location @ ''_'' @ str_duration duration) @ ''@fixed.by.script'')"

section \<open>Example inputs\<close>

text \<open>A weekly stand-up: the series master, an exception of it exported with a stray
  identifier, and a copy of the meeting without any identifier.\<close>

definition ex_master :: event where
  "ex_master = \<lparr>SUMMARY = Some ''Standup'', LOCATION = Some ''Room A'',
     DTSTART = Some (DateTime (2024, 1, 5) (9, 0, 0) None),
     DTEND = Some (DateTime (2024, 1, 5) (10, 0, 0) None),
     UID = Some ''X'', RRULE = Some ''FREQ=WEEKLY'', RECURRENCE_ID = None, other = []\<rparr>"

definition ex_exception :: event where
  "ex_exception = \<lparr>SUMMARY = Some ''Standup'', LOCATION = Some ''Room A'',
     DTSTART = Some (DateTime (2024, 1, 12) (9, 30, 0) None),
     DTEND = Some (DateTime (2024, 1, 12) (10, 30, 0) None),
     UID = Some ''Y'', RRULE = None,
     RECURRENCE_ID = Some (DateTime (2024, 1, 12) (9, 0, 0) None), other = []\<rparr>"

definition ex_plain :: event where
  "ex_plain = \<lparr>SUMMARY = Some ''Standup'', LOCATION = Some ''Room A'',
     DTSTART = Some (DateTime (2024, 1, 5) (9, 0, 0) None),
     DTEND = Some (DateTime (2024, 1, 5) (10, 0, 0) None),
     UID = None, RRULE = None, RECURRENCE_ID = None, other = []\<rparr>"

definition ex_header :: "(string \<times> propval) list" where
  "ex_header = [(''VERSION'', Text ''2.0''), (''PRODID'', Text ''-//ex//EN'')]"

definition cal_series :: calendar where
  "cal_series = \<lparr>properties = ex_header, subcomponents = [VEVENT ex_exception, VEVENT ex_master]\<rparr>"

definition cal_plain :: calendar where
  "cal_plain = \<lparr>properties = ex_header, subcomponents = [VEVENT ex_plain]\<rparr>"

text \<open>The same series where the exception was also exported with its summary edited,
  next to an event without start.\<close>

definition ex_moved :: event where
  "ex_moved = \<lparr>SUMMARY = Some ''Standup (moved)'', LOCATION = Some ''Room A'',
     DTSTART = Some (DateTime (2024, 1, 12) (14, 0, 0) None),
     DTEND = Some (DateTime (2024, 1, 12) (15, 0, 0) None),
     UID = Some ''X'', RRULE = None,
     RECURRENCE_ID = Some (DateTime (2024, 1, 12) (9, 0, 0) None), other = []\<rparr>"

definition ex_undated :: event where
  "ex_undated = \<lparr>SUMMARY = Some ''Retro'', LOCATION = None, DTSTART = None, DTEND = None,
     UID = Some ''R'', RRULE = None, RECURRENCE_ID = None, other = []\<rparr>"

definition cal_moved :: calendar where
  "cal_moved = \<lparr>properties = ex_header,
     subcomponents = [VEVENT ex_master, VEVENT ex_undated, VEVENT ex_moved, VEVENT ex_exception]\<rparr>"

text \<open>An all-day review without identifier and without end.\<close>

definition ex_review :: event where
  "ex_review = \<lparr>SUMMARY = Some ''Review'', LOCATION = Some ''Lab'',
     DTSTART = Some (Date (2024, 2, 1)), DTEND = None,
     UID = None, RRULE = None, RECURRENCE_ID = None, other = []\<rparr>"

definition ex_blank :: event where
  "ex_blank = ex_review\<lparr>UID := Some ''''\<rparr>"

definition cal_review :: calendar where
  "cal_review = \<lparr>properties = ex_header, subcomponents = [VEVENT ex_review]\<rparr>"

text \<open>Bounds of different kinds: an all-day start with a timed end in UTC+1; a start
  without timezone with an end in UTC; a meeting of no length.\<close>

definition ex_allday :: event where
  "ex_allday = \<lparr>SUMMARY = Some ''Offsite'', LOCATION = None,
     DTSTART = Some (Date (2024, 1, 5)),
     DTEND = Some (DateTime (2024, 1, 6) (12, 0, 0) (Some 3600)),
     UID = None, RRULE = None, RECURRENCE_ID = None, other = []\<rparr>"

definition ex_mixed :: event where
  "ex_mixed = \<lparr>SUMMARY = Some ''Sync'', LOCATION = Some ''Room B'',
     DTSTART = Some (DateTime (2024, 1, 5) (9, 0, 0) None),
     DTEND = Some (DateTime (2024, 1, 5) (10, 0, 0) (Some 0)),
     UID = None, RRULE = None, RECURRENCE_ID = None, other = []\<rparr>"

definition ex_zero :: event where
  "ex_zero = \<lparr>SUMMARY = Some ''Sync'', LOCATION = Some ''Room B'',
     DTSTART = Some (DateTime (2024, 3, 1) (9, 0, 0) None),
     DTEND = Some (DateTime (2024, 3, 1) (9, 0, 0) None),
     UID = None, RRULE = None, RECURRENCE_ID = None, other = []\<rparr>"

definition cal_mixed :: calendar where
  "cal_mixed = \<lparr>properties = ex_header, subcomponents = [VEVENT ex_mixed]\<rparr>"

text \<open>Two blocks that hold the same meeting under two identifiers.\<close>

definition cal_x :: calendar where
  "cal_x = \<lparr>properties = ex_header, subcomponents = [VEVENT (ex_plain\<lparr>UID := Some ''X''\<rparr>)]\<rparr>"

definition cal_y :: calendar where
  "cal_y = \<lparr>properties = ex_header, subcomponents = [VEVENT (ex_plain\<lparr>UID := Some ''Y''\<rparr>)]\<rparr>"

text \<open>A file with one block, and environments with a parser that reads any block as
  the plain stand-up, a serializer with a fixed output and the given faults of the copy
  and of the write.\<close>

definition ex_bytes :: bytes where
  "ex_bytes = ''junk BEGIN:VCALENDAR body END:VCALENDAR tail''"

definition ex_world :: world where
  "ex_world = \<lparr>files = [''a.ics'' \<mapsto> ex_bytes], trace = [], logged = []\<rparr>"

definition ex_env :: "copy_fault \<Rightarrow> write_fault \<Rightarrow> env" where
  "ex_env c v = \<lparr>from_ical = (\<lambda>chunk. Some cal_plain), to_ical = (\<lambda>cal. Some ''repaired''),
     read_fault = False, copy_fault = c, write_fault = v\<rparr>"

text \<open>The merged calendar of the plain stand-up, to be merged once more.\<close>

definition cal_repaired :: calendar where
  "cal_repaired = \<lparr>properties = header_copy cal_plain,
     subcomponents = map VEVENT (output_events [cal_plain])\<rparr>"

section \<open>Lemmas\<close>

subsection \<open>Grouping\<close>

lemma series_key_UID [simp]: "series_key (ev\<lparr>UID := u\<rparr>) = series_key ev"
  by (simp add: series_key_def duration_of_def)

lemma group_events_snoc:
  "group_events (evs @ [ev]) = add_to_group (series_key ev) ev (group_events evs)"
  by (simp add: group_events_def)

lemma keys_add_to_group:
  "map fst (add_to_group k ev gs) = (if k \<in> fst ` set gs then map fst gs else map fst gs @ [k])"
proof (induction gs)
  case Nil
  show ?case by simp
next
  case (Cons g gs)
  obtain k' f r where g: "g = (k', f, r)" by (cases g)
  show ?case using Cons.IH by (simp add: g)
qed

lemma first_keys_snoc:
  "first_keys (evs @ [ev]) =
     (if series_key ev \<in> set (first_keys evs) then first_keys evs else first_keys evs @ [series_key ev])"
  by (simp add: first_keys_def)

lemma set_first_keys: "set (first_keys evs) = series_key ` set evs"
  by (simp add: first_keys_def)

lemma distinct_first_keys: "distinct (first_keys evs)"
  by (simp add: first_keys_def)

lemma keys_group_events: "map fst (group_events evs) = first_keys evs"
proof (induction evs rule: rev_induct)
  case Nil
  show ?case by (simp add: group_events_def first_keys_def)
next
  case (snoc ev evs)
  have "fst ` set (group_events evs) = set (first_keys evs)"
    using snoc.IH by (metis set_map)
  with snoc.IH show ?case
    by (simp add: group_events_snoc keys_add_to_group first_keys_snoc)
qed

lemma series_of_snoc:
  "series_of (evs @ [ev]) k = (if series_key ev = k then series_of evs k @ [ev] else series_of evs k)"
  by (simp add: series_of_def)

lemma series_of_empty: "k \<notin> series_key ` set evs \<Longrightarrow> series_of evs k = []"
  by (auto simp: series_of_def filter_empty_conv)

lemma members_add_to_group:
  assumes "distinct (map fst gs)"
    and "\<And>k f r. (k, f, r) \<in> set gs \<Longrightarrow> f # r = series_of evs k"
    and "series_key ev \<notin> fst ` set gs \<Longrightarrow> series_of evs (series_key ev) = []"
    and "(k, f, r) \<in> set (add_to_group (series_key ev) ev gs)"
  shows "f # r = series_of (evs @ [ev]) k"
  using assms
proof (induction gs)
  case Nil
  then show ?case by (simp add: series_of_snoc)
next
  case (Cons g gs)
  obtain k' f' r' where g: "g = (k', f', r')" by (cases g)
  have old: "f' # r' = series_of evs k'"
    by (rule Cons.prems(2)) (simp add: g)
  have rest: "f # r = series_of evs k" if "(k, f, r) \<in> set gs"
    by (rule Cons.prems(2)) (simp add: that)
  show ?case
  proof (cases "k' = series_key ev")
    case True
    from Cons.prems(4) True g
    consider "k = k'" "f = f'" "r = r' @ [ev]" | "(k, f, r) \<in> set gs" by auto
    then show ?thesis
    proof cases
      case 1
      with old True show ?thesis by (simp add: series_of_snoc)
    next
      case 2
      then have "fst (k, f, r) \<in> fst ` set gs" by (rule imageI)
      then have "k \<in> fst ` set gs" by simp
      moreover have "k' \<notin> fst ` set gs" using Cons.prems(1) g by simp
      ultimately have "k \<noteq> series_key ev" using True by metis
      with rest [OF 2] show ?thesis by (simp add: series_of_snoc)
    qed
  next
    case False
    from Cons.prems(4) False g
    consider "k = k'" "f = f'" "r = r'" | "(k, f, r) \<in> set (add_to_group (series_key ev) ev gs)"
      by auto
    then show ?thesis
    proof cases
      case 1
      with old False show ?thesis by (simp add: series_of_snoc)
    next
      case 2
      show ?thesis
      proof (rule Cons.IH)
        show "distinct (map fst gs)" using Cons.prems(1) by simp
        show "f # r = series_of evs k" if "(k, f, r) \<in> set gs" for k f r
          by (rule Cons.prems(2)) (simp add: that)
        show "series_of evs (series_key ev) = []" if "series_key ev \<notin> fst ` set gs"
          using that Cons.prems(3) False g by simp
        show "(k, f, r) \<in> set (add_to_group (series_key ev) ev gs)" by (rule 2)
      qed
    qed
  qed
qed

lemma members_group_events:
  "(k, f, r) \<in> set (group_events evs) \<Longrightarrow> f # r = series_of evs k"
proof (induction evs arbitrary: k f r rule: rev_induct)
  case Nil
  then show ?case by (simp add: group_events_def)
next
  case (snoc ev evs)
  have keys: "fst ` set (group_events evs) = series_key ` set evs"
    using keys_group_events [of evs] set_first_keys [of evs] by (metis set_map)
  show ?case
  proof (rule members_add_to_group)
    show "distinct (map fst (group_events evs))"
      by (simp add: keys_group_events distinct_first_keys)
    show "f # r = series_of evs k" if "(k, f, r) \<in> set (group_events evs)" for k f r
      using that by (rule snoc.IH)
    show "series_of evs (series_key ev) = []" if "series_key ev \<notin> fst ` set (group_events evs)"
      using that keys by (simp add: series_of_empty)
    show "(k, f, r) \<in> set (add_to_group (series_key ev) ev (group_events evs))"
      using snoc.prems by (simp add: group_events_snoc)
  qed
qed

lemma process_group_relabel:
  assumes "f # r = series_of evs k"
  shows "process_group (k, f, r) = map (relabel evs) (series_of evs k)"
proof -
  have uid: "group_uid evs k = canonical_uid k (select_master f r)"
    using assms [symmetric] by (simp add: group_uid_def)
  have "\<forall>ev \<in> set (f # r). series_key ev = k"
    unfolding assms by (simp add: series_of_def)
  then have "map (\<lambda>ev. ev\<lparr>UID := Some (canonical_uid k (select_master f r))\<rparr>) (f # r)
      = map (relabel evs) (f # r)"
    unfolding relabel_def uid [symmetric] by (intro map_cong) auto
  then show ?thesis by (simp add: assms [symmetric] Let_def)
qed

lemma final_events_grouped:
  "final_events (group_events evs) = map (relabel evs) (grouped_order evs)"
proof -
  have "process_group g = map (relabel evs) (series_of evs (fst g))"
    if "g \<in> set (group_events evs)" for g
  proof -
    obtain k f r where g: "g = (k, f, r)" by (cases g)
    from that have "f # r = series_of evs k"
      unfolding g by (rule members_group_events)
    then show ?thesis unfolding g by (simp only: process_group_relabel fst_conv)
  qed
  then have "map process_group (group_events evs)
      = map (\<lambda>g. map (relabel evs) (series_of evs (fst g))) (group_events evs)"
    by (intro map_cong) auto
  also have "\<dots> = map (\<lambda>k. map (relabel evs) (series_of evs k)) (first_keys evs)"
    unfolding keys_group_events [symmetric] by (simp add: comp_def)
  finally show ?thesis
    by (simp add: final_events_def grouped_order_def map_concat comp_def)
qed

subsection \<open>The deduplication loop\<close>

lemma dedup_snoc: "dedup (evs @ [ev]) = dedup_step (dedup evs) ev"
  by (simp add: dedup_def)

lemma dedup_Nil: "dedup [] = \<lparr>components = [], added_events = {}, warnings = []\<rparr>"
  by (simp add: dedup_def)

lemma dedup_step_cases:
  "dedup_step st ev =
     (case signature_of ev of
        None \<Rightarrow> st\<lparr>warnings := warnings st @ [No_DTSTART (SUMMARY ev)]\<rparr>
      | Some s \<Rightarrow>
          if s \<in> added_events st then st
          else st\<lparr>components := components st @ [ev], added_events := insert s (added_events st)\<rparr>)"
  by (simp add: dedup_step_def signature_of_def Let_def split: option.splits)

lemma added_events_dedup:
  "added_events (dedup evs) = {s. Some s \<in> signature_of ` set evs}"
proof (induction evs rule: rev_induct)
  case Nil
  show ?case by (simp add: dedup_Nil)
next
  case (snoc ev evs)
  show ?case
  proof (cases "signature_of ev")
    case None
    with snoc.IH show ?thesis
      by (auto simp: dedup_snoc dedup_step_cases)
  next
    case (Some s)
    with snoc.IH show ?thesis
      by (auto simp: dedup_snoc dedup_step_cases)
  qed
qed

lemma components_dedup_sigs:
  "signature_of ` set (components (dedup evs)) = Some ` added_events (dedup evs)"
proof (induction evs rule: rev_induct)
  case Nil
  show ?case by (simp add: dedup_Nil)
next
  case (snoc ev evs)
  then show ?case
    by (cases "signature_of ev") (auto simp: dedup_snoc dedup_step_cases)
qed

lemma distinct_components_dedup:
  "distinct (map signature_of (components (dedup evs)))"
proof (induction evs rule: rev_induct)
  case Nil
  show ?case by (simp add: dedup_Nil)
next
  case (snoc ev evs)
  show ?case
  proof (cases "signature_of ev")
    case None
    with snoc.IH show ?thesis by (simp add: dedup_snoc dedup_step_cases)
  next
    case (Some s)
    have "Some s \<notin> signature_of ` set (components (dedup evs))" if "s \<notin> added_events (dedup evs)"
      using that unfolding components_dedup_sigs by auto
    with snoc.IH Some show ?thesis by (simp add: dedup_snoc dedup_step_cases)
  qed
qed

lemma components_dedup_subset: "set (components (dedup evs)) \<subseteq> set evs"
proof (induction evs rule: rev_induct)
  case Nil
  show ?case by (simp add: dedup_Nil)
next
  case (snoc ev evs)
  then show ?case
    by (cases "signature_of ev") (auto simp: dedup_snoc dedup_step_cases)
qed

lemma signature_of_None: "signature_of ev = None \<longleftrightarrow> DTSTART ev = None"
  by (simp add: signature_of_def split: option.splits)

lemma components_dedup_DTSTART:
  "ev \<in> set (components (dedup evs)) \<Longrightarrow> DTSTART ev \<noteq> None"
proof -
  assume "ev \<in> set (components (dedup evs))"
  then have "signature_of ev \<in> Some ` added_events (dedup evs)"
    unfolding components_dedup_sigs [symmetric] by (rule imageI)
  then show ?thesis by (auto simp: signature_of_None [symmetric])
qed

lemma signatures_dedup:
  "signature_of ` set (components (dedup evs)) = signature_of ` set evs - {None}"
proof -
  have "Some ` {s. Some s \<in> A} = A - {None}" for A :: "event_signature option set"
  proof (intro set_eqI iffI)
    fix x assume "x \<in> Some ` {s. Some s \<in> A}"
    then show "x \<in> A - {None}" by auto
  next
    fix x assume x: "x \<in> A - {None}"
    then obtain s where "x = Some s" by (cases x) auto
    with x show "x \<in> Some ` {s. Some s \<in> A}" by auto
  qed
  then show ?thesis unfolding components_dedup_sigs added_events_dedup .
qed

lemma kept_snoc_old: "i < length evs \<Longrightarrow> kept (evs @ [ev]) i = kept evs i"
  by (simp add: kept_def nth_append)

lemma kept_snoc_new:
  "kept (evs @ [ev]) (length evs) =
     (case signature_of ev of None \<Rightarrow> False | Some s \<Rightarrow> s \<notin> added_events (dedup evs))"
  by (auto simp: kept_def added_events_dedup signature_of_None [symmetric] split: option.splits)

lemma components_dedup:
  "components (dedup evs) = map (nth evs) (filter (kept evs) [0..<length evs])"
proof (induction evs rule: rev_induct)
  case Nil
  show ?case by (simp add: dedup_Nil)
next
  case (snoc ev evs)
  have old: "map (nth (evs @ [ev])) (filter (kept (evs @ [ev])) [0..<length evs])
      = map (nth evs) (filter (kept evs) [0..<length evs])"
  proof -
    have "filter (kept (evs @ [ev])) [0..<length evs] = filter (kept evs) [0..<length evs]"
      by (intro filter_cong) (auto simp: kept_snoc_old)
    moreover have "map (nth (evs @ [ev])) (filter (kept evs) [0..<length evs])
        = map (nth evs) (filter (kept evs) [0..<length evs])"
      by (intro map_cong) (auto simp: nth_append)
    ultimately show ?thesis by simp
  qed
  show ?case
    by (cases "signature_of ev")
      (simp_all add: dedup_snoc dedup_step_cases old kept_snoc_new snoc.IH [symmetric])
qed

lemma warnings_dedup:
  "warnings (dedup evs) = map (\<lambda>ev. No_DTSTART (SUMMARY ev)) (filter (\<lambda>ev. DTSTART ev = None) evs)"
proof (induction evs rule: rev_induct)
  case Nil
  show ?case by (simp add: dedup_Nil)
next
  case (snoc ev evs)
  then show ?case
    by (cases "signature_of ev")
      (auto simp: dedup_snoc dedup_step_cases signature_of_None [symmetric])
qed

subsection \<open>The merged calendar\<close>

lemma process_calendars_Some:
  "calendars \<noteq> [] \<Longrightarrow>
   process_calendars calendars =
     Some (\<lparr>properties = header_copy (hd calendars),
             subcomponents = map VEVENT (output_events calendars)\<rparr>,
           concat (map series_key_log (all_events calendars))
           @ warnings (dedup (final_events (group_events (all_events calendars)))))"
  by (cases calendars) (simp_all add: process_calendars_def output_events_def Let_def)

lemma signature_by_effective_date:
  "DTSTART ev \<noteq> None \<Longrightarrow>
   signature_of ev = map_option (\<lambda>x. (UID ev, isoformat x)) (effective_date ev)"
  by (auto simp: signature_of_def effective_date_def event_signature_date_def split: option.splits)

subsection \<open>Identifiers\<close>

lemma mset_concat_filters:
  "distinct ks \<Longrightarrow>
   mset (concat (map (\<lambda>k. filter (\<lambda>x. f x = k) xs) ks)) = mset (filter (\<lambda>x. f x \<in> set ks) xs)"
proof (induction ks)
  case Nil
  show ?case by simp
next
  case (Cons k ks)
  have "filter_mset (\<lambda>x. f x = k) (mset xs) + filter_mset (\<lambda>x. f x \<in> set ks) (mset xs)
      = filter_mset (\<lambda>x. f x = k \<or> f x \<in> set ks) (mset xs)"
    using Cons.prems by (intro multiset_eqI) auto
  with Cons show ?case by simp
qed

lemma mset_grouped_order: "mset (grouped_order evs) = mset evs"
proof -
  have "mset (grouped_order evs) = mset (filter (\<lambda>ev. series_key ev \<in> set (first_keys evs)) evs)"
    unfolding grouped_order_def series_of_def
    by (rule mset_concat_filters) (rule distinct_first_keys)
  also have "filter (\<lambda>ev. series_key ev \<in> set (first_keys evs)) evs = evs"
    by (simp add: set_first_keys)
  finally show ?thesis .
qed

lemma set_grouped_order: "set (grouped_order evs) = set evs"
  using mset_grouped_order [of evs] by (metis set_mset_mset)

lemma synth_uid_nonempty: "synth_uid k \<noteq> []"
  by (cases k) simp

lemma canonical_uid_nonempty: "canonical_uid k m \<noteq> []"
  by (simp add: canonical_uid_def synth_uid_nonempty split: option.splits)

lemma group_uid_nonempty: "group_uid evs k \<noteq> []"
  by (simp add: group_uid_def synth_uid_nonempty canonical_uid_nonempty split: list.splits)

lemma output_events_relabelled:
  assumes "ev' \<in> set (output_events calendars)"
  obtains ev where "ev \<in> set (all_events calendars)" "ev' = relabel (all_events calendars) ev"
proof -
  from assms have "ev' \<in> set (final_events (group_events (all_events calendars)))"
    unfolding output_events_def using components_dedup_subset by blast
  then have "ev' \<in> relabel (all_events calendars) ` set (all_events calendars)"
    by (simp add: final_events_grouped set_grouped_order)
  with that show thesis by blast
qed

lemma series_key_relabel: "series_key (relabel evs ev) = series_key ev"
  by (simp add: relabel_def)

lemma UID_relabel: "UID (relabel evs ev) = Some (group_uid evs (series_key ev))"
  by (simp add: relabel_def)


subsection \<open>Master selection\<close>

lemma find_first:
  "P m \<Longrightarrow> \<forall>x \<in> set pre. \<not> P x \<Longrightarrow> find P (pre @ m # post) = Some m"
  by (induction pre) auto

lemma find_none: "\<forall>x \<in> set xs. \<not> P x \<Longrightarrow> find P xs = None"
  by (induction xs) auto

lemma select_master_first_rrule:
  assumes "first # rest = pre @ m # post" "has_rrule m" "\<forall>x \<in> set pre. \<not> has_rrule x"
  shows "select_master first rest = m"
  unfolding select_master_def assms(1) using assms(2,3) by (simp add: find_first)

lemma select_master_no_rrule:
  assumes "\<forall>x \<in> set (first # rest). \<not> has_rrule x"
  shows "select_master first rest = first"
  unfolding select_master_def using find_none [OF assms] by simp

lemma select_master_only_rrule:
  assumes "m \<in> set (first # rest)" "has_rrule m"
    and "\<forall>x \<in> set (first # rest). has_rrule x \<longrightarrow> x = m"
  shows "select_master first rest = m"
proof -
  from assms(1) obtain pre post where split: "first # rest = pre @ m # post" "m \<notin> set pre"
    by (meson split_list_first)
  have "\<forall>x \<in> set pre. \<not> has_rrule x"
  proof
    fix x assume x: "x \<in> set pre"
    then have "x \<in> set (first # rest)" unfolding split(1) by simp
    with assms(3) x split(2) show "\<not> has_rrule x" by blast
  qed
  with split(1) assms(2) show ?thesis by (rule select_master_first_rrule)
qed

lemma select_master_in_group: "select_master first rest \<in> set (first # rest)"
proof (cases "find has_rrule (first # rest)")
  case None
  then show ?thesis by (simp add: select_master_def)
next
  case (Some m)
  then have "m \<in> set (first # rest)"
    unfolding find_Some_iff by (metis nth_mem)
  with Some show ?thesis by (simp add: select_master_def)
qed

subsection \<open>Durations\<close>

lemma try_duration_promote: "try_duration s e = py_sub (promote e s) (promote s e)"
  by (simp add: try_duration_def promote_def Let_def)

lemma py_sub_promoted_defined:
  "(\<exists>d. py_sub (promote e s) (promote s e) = Inr d)
   \<longleftrightarrow> \<not> (\<not> is_date s \<and> \<not> is_date e \<and> (tzinfo_of s = None) \<noteq> (tzinfo_of e = None))"
proof (cases s)
  case (Date a)
  then show ?thesis
    by (cases e; cases "tzinfo_of e") (auto simp: promote_def)
next
  case s: (DateTime a ta za)
  show ?thesis
  proof (cases e)
    case (Date b)
    with s show ?thesis by (cases za) (auto simp: promote_def)
  next
    case (DateTime b tb zb)
    with s show ?thesis by (cases za; cases zb) (auto simp: promote_def)
  qed
qed

lemma py_sub_error: "py_sub a b = Inl x \<Longrightarrow> x = TypeError"
  by (cases "(a, b)" rule: py_sub.cases) auto

lemma duration_of_both:
  "DTSTART ev = Some s \<Longrightarrow> DTEND ev = Some e \<Longrightarrow>
   duration_of ev = (case try_duration s e of Inr d \<Rightarrow> Some d | Inl x \<Rightarrow> Some 0)"
  by (simp add: duration_of_def)

lemma duration_of_missing: "DTSTART ev = None \<or> DTEND ev = None \<Longrightarrow> duration_of ev = None"
  by (auto simp: duration_of_def split: option.splits)

lemma group_of_member:
  assumes "ev \<in> set evs"
  obtains first rest where "(series_key ev, first, rest) \<in> set (group_events evs)"
    and "first # rest = series_of evs (series_key ev)"
proof -
  from assms have "series_key ev \<in> set (map fst (group_events evs))"
    by (simp add: keys_group_events set_first_keys)
  then obtain g where g: "g \<in> set (group_events evs)" "fst g = series_key ev" by auto
  obtain k f r where "g = (k, f, r)" by (cases g)
  with g have mem: "(series_key ev, f, r) \<in> set (group_events evs)" by simp
  from mem members_group_events [OF mem] that show thesis by blast
qed

subsection \<open>Reordering the blocks\<close>

lemma mset_concat_map: "mset (concat (map f xs)) = (\<Sum>x \<in># mset xs. mset (f x))"
  by (induction xs) simp_all

lemma mset_all_events:
  "mset calendars' = mset calendars \<Longrightarrow> mset (all_events calendars') = mset (all_events calendars)"
  by (simp add: all_events_def mset_concat_map)

lemma output_signatures_relabel:
  "output_signatures calendars
     = (\<lambda>ev. signature_of (relabel (all_events calendars) ev)) ` set (all_events calendars) - {None}"
  by (simp add: output_signatures_def output_events_def signatures_dedup final_events_grouped
      set_grouped_order image_image)

lemma set_series_of: "set (series_of evs k) = {ev \<in> set evs. series_key ev = k}"
  by (simp add: series_of_def)

lemma master_eligible:
  assumes "series_of evs k = first # rest"
  shows "select_master first rest \<in> set evs \<and> series_key (select_master first rest) = k
    \<and> eligible evs (select_master first rest)"
proof -
  let ?m = "select_master first rest"
  have grp: "set (first # rest) = {ev \<in> set evs. series_key ev = k}"
    unfolding assms [symmetric] by (rule set_series_of)
  have "?m \<in> set (first # rest)" by (rule select_master_in_group)
  with grp have m: "?m \<in> set evs" "series_key ?m = k" by auto
  have "eligible evs ?m"
  proof (cases "find has_rrule (first # rest)")
    case None
    then have "\<forall>x \<in> set (first # rest). \<not> has_rrule x"
      unfolding find_None_iff by blast
    with grp m(2) show ?thesis unfolding eligible_def by blast
  next
    case (Some m')
    then have "has_rrule m'" unfolding find_Some_iff by blast
    with Some show ?thesis by (simp add: eligible_def select_master_def)
  qed
  with m show ?thesis by simp
qed

lemma eligible_set: "set evs' = set evs \<Longrightarrow> eligible evs' ev = eligible evs ev"
  by (simp add: eligible_def)

lemma group_uid_reordered:
  assumes same: "set evs' = set evs" and agree: "masters_agree evs"
    and k: "k \<in> series_key ` set evs"
  shows "group_uid evs' k = group_uid evs k"
proof -
  from k have "series_of evs k \<noteq> []"
    by (auto simp: series_of_def filter_empty_conv)
  then obtain f r where g: "series_of evs k = f # r" by (cases "series_of evs k") auto
  from k same have "series_of evs' k \<noteq> []"
    by (auto simp: series_of_def filter_empty_conv)
  then obtain f' r' where g': "series_of evs' k = f' # r'" by (cases "series_of evs' k") auto
  let ?m = "select_master f r" and ?m' = "select_master f' r'"
  from master_eligible [OF g] have m: "?m \<in> set evs" "series_key ?m = k" "eligible evs ?m"
    by simp_all
  from master_eligible [OF g'] same have m': "?m' \<in> set evs" "series_key ?m' = k" "eligible evs ?m'"
    by (simp_all add: eligible_set [OF same])
  from agree m m' have "canonical_uid k ?m' = canonical_uid k ?m"
    unfolding masters_agree_def by metis
  then show ?thesis by (simp add: group_uid_def g g')
qed

subsection \<open>Files\<close>

lemma say_simps [simp]:
  "files (say rs w) = files w" "trace (say rs w) = trace w" "logged (say rs w) = logged w @ rs"
  by (simp_all add: say_def)

lemma did_simps [simp]:
  "files (did op w) = files w" "trace (did op w) = trace w @ [op]" "logged (did op w) = logged w"
  by (simp_all add: did_def)

lemma backup_path_differs: "backup_path file_path \<noteq> file_path"
  by (simp add: backup_path_def)

lemma read_file_chunks_found:
  assumes "fst (read_file_chunks e w file_path) \<noteq> []"
  shows "files (snd (read_file_chunks e w file_path)) = files w
    \<and> trace (snd (read_file_chunks e w file_path)) = trace w @ [Op_Read file_path]
    \<and> files w file_path \<noteq> None"
  using assms
  by (auto simp: read_file_chunks_def Let_def split: option.splits if_splits prod.splits)

lemma persist_copy_fails:
  assumes "copy_fault e \<noteq> Copy_OK"
  shows "trace (persist e w file_path fixed_cal) = trace w @ [Op_Copy file_path (backup_path file_path)]
    \<and> files (persist e w file_path fixed_cal) file_path = files w file_path
    \<and> logged (persist e w file_path fixed_cal) = logged w @ [Backup_Failed file_path]"
  using assms backup_path_differs [of file_path]
  by (cases "copy_fault e")
    (auto simp: persist_def copy2_def Let_def split: option.splits)

lemma persist_copy_ok:
  assumes "copy_fault e = Copy_OK" and "files w file_path = Some raw"
  shows "(\<exists>rest. trace (persist e w file_path fixed_cal)
            = trace w @ [Op_Copy file_path (backup_path file_path), Op_Open_Write file_path] @ rest)
    \<and> files (persist e w file_path fixed_cal) (backup_path file_path) = Some raw
    \<and> Backup_Created (backup_path file_path) \<in> set (logged (persist e w file_path fixed_cal))"
  using assms backup_path_differs [of file_path]
  by (cases "write_fault e"; cases "to_ical e fixed_cal")
    (auto simp: persist_def copy2_def overwrite_def Let_def)


lemma process_file_persists:
  assumes "chunks = fst (read_file_chunks e (say [Info_Processing file_path] w) file_path)"
    and "chunks \<noteq> []"
    and "calendars = fst (parse_chunks e chunks file_path)"
    and "calendars \<noteq> []"
  obtains fixed_cal w2 where "process_file e w file_path = persist e w2 file_path fixed_cal"
    and "files w2 = files w" and "trace w2 = trace w @ [Op_Read file_path]"
    and "files w file_path \<noteq> None"
proof -
  let ?r = "read_file_chunks e (say [Info_Processing file_path] w) file_path"
  let ?p = "parse_chunks e chunks file_path"
  from assms(1,2) have "fst ?r \<noteq> []" by simp
  from read_file_chunks_found [OF this]
  have r: "files (snd ?r) = files w" "trace (snd ?r) = trace w @ [Op_Read file_path]"
    "files w file_path \<noteq> None"
    by simp_all
  from assms(4) obtain fixed_cal warns where pc: "process_calendars calendars = Some (fixed_cal, warns)"
    using process_calendars_Some by blast
  have "process_file e w file_path
      = persist e (say warns (say (snd ?p) (snd ?r))) file_path fixed_cal"
    using assms pc by (simp add: process_file_def Let_def case_prod_beta)
  moreover have "files (say warns (say (snd ?p) (snd ?r))) = files w"
    and "trace (say warns (say (snd ?p) (snd ?r))) = trace w @ [Op_Read file_path]"
    using r by simp_all
  ultimately show thesis using r(3) that by blast
qed

subsection \<open>A second pass\<close>

lemma walk_vevent_events: "walk_vevent (map VEVENT evs) = evs"
  by (induction evs) simp_all

lemma all_events_single:
  "all_events [\<lparr>properties = ps, subcomponents = map VEVENT evs\<rparr>] = evs"
  by (simp add: all_events_def walk_vevent_events)

lemma dedup_block:
  "\<exists>c. components (foldl dedup_step st b) = components st @ c \<and> set c \<subseteq> set b"
proof (induction b arbitrary: st)
  case Nil
  show ?case by simp
next
  case (Cons ev b)
  from Cons [of "dedup_step st ev"] obtain c
    where c: "components (foldl dedup_step (dedup_step st ev) b) = components (dedup_step st ev) @ c"
      "set c \<subseteq> set b"
    by blast
  show ?case
  proof (cases "components (dedup_step st ev) = components st")
    case True
    with c show ?thesis by auto
  next
    case False
    then have "components (dedup_step st ev) = components st @ [ev]"
      by (auto simp: dedup_step_cases split: option.splits if_splits)
    with c have "components (foldl dedup_step st (ev # b)) = components st @ (ev # c)"
      "set (ev # c) \<subseteq> set (ev # b)"
      by auto
    then show ?thesis by blast
  qed
qed

lemma dedup_blocks:
  "\<exists>cs. list_all2 (\<lambda>c b. set c \<subseteq> set b) cs bs
     \<and> components (foldl dedup_step st (concat bs)) = components st @ concat cs"
proof (induction bs arbitrary: st)
  case Nil
  show ?case by simp
next
  case (Cons b bs)
  obtain c where c: "components (foldl dedup_step st b) = components st @ c" "set c \<subseteq> set b"
    using dedup_block by blast
  from Cons [of "foldl dedup_step st b"] obtain cs
    where cs: "list_all2 (\<lambda>c b. set c \<subseteq> set b) cs bs"
      "components (foldl dedup_step (foldl dedup_step st b) (concat bs))
        = components (foldl dedup_step st b) @ concat cs"
    by blast
  from c cs have "list_all2 (\<lambda>c b. set c \<subseteq> set b) (c # cs) (b # bs)"
    and "components (foldl dedup_step st (concat (b # bs))) = components st @ concat (c # cs)"
    by simp_all
  then show ?case by blast
qed

lemma first_keys_Cons:
  "first_keys (ev # evs) = series_key ev # filter (\<lambda>k. k \<noteq> series_key ev) (first_keys evs)"
proof -
  have "remdups (ks @ [a]) = filter (\<lambda>k. k \<noteq> a) (remdups ks) @ [a]" for ks and a :: series_key
    by (induction ks) auto
  then show ?thesis by (simp add: first_keys_def rev_filter)
qed

lemma first_keys_filter:
  "filter P (first_keys evs) = first_keys (filter (\<lambda>ev. P (series_key ev)) evs)"
  by (simp add: first_keys_def rev_filter [symmetric] remdups_filter [symmetric] filter_map comp_def)

lemma series_of_filter_other:
  "k \<noteq> k' \<Longrightarrow> series_of (filter (\<lambda>ev. series_key ev \<noteq> k') evs) k = series_of evs k"
  by (auto simp: series_of_def intro: filter_cong)

lemma grouped_order_Cons:
  "grouped_order (ev # evs) =
     ev # series_of evs (series_key ev)
     @ grouped_order (filter (\<lambda>x. series_key x \<noteq> series_key ev) evs)"
proof -
  let ?k = "series_key ev" and ?rest = "filter (\<lambda>x. series_key x \<noteq> series_key ev) evs"
  have "map (series_of (ev # evs)) (filter (\<lambda>k. k \<noteq> ?k) (first_keys evs))
      = map (series_of ?rest) (first_keys ?rest)"
  proof -
    have "map (series_of (ev # evs)) (filter (\<lambda>k. k \<noteq> ?k) (first_keys evs))
        = map (series_of ?rest) (filter (\<lambda>k. k \<noteq> ?k) (first_keys evs))"
      by (intro map_cong) (auto simp: series_of_filter_other, simp add: series_of_def)
    then show ?thesis by (simp add: first_keys_filter)
  qed
  then show ?thesis
    by (simp add: grouped_order_def first_keys_Cons) (simp add: series_of_def)
qed

lemma grouped_order_block:
  assumes "\<forall>x \<in> set c. series_key x = k" and "\<forall>x \<in> set r. series_key x \<noteq> k"
  shows "grouped_order (c @ r) = c @ grouped_order r"
proof (cases c)
  case Nil
  then show ?thesis by simp
next
  case (Cons ev c')
  with assms(1) have k: "series_key ev = k" "\<forall>x \<in> set c'. series_key x = k" by simp_all
  have "series_of (c' @ r) k = c'"
    using k(2) assms(2) by (simp add: series_of_def filter_empty_conv)
  moreover have "filter (\<lambda>x. series_key x \<noteq> k) (c' @ r) = r"
    using k(2) assms(2) by (simp add: filter_empty_conv)
  ultimately show ?thesis
    unfolding Cons by (simp add: grouped_order_Cons k(1))
qed

lemma keys_of_blocks:
  assumes "list_all2 (\<lambda>c k. \<forall>x \<in> set c. series_key x = k) cs ks"
  shows "\<forall>x \<in> set (concat cs). series_key x \<in> set ks"
  using assms by (induction rule: list_all2_induct) auto

lemma grouped_order_blocks:
  assumes "list_all2 (\<lambda>c k. \<forall>x \<in> set c. series_key x = k) cs ks" and "distinct ks"
  shows "grouped_order (concat cs) = concat cs"
  using assms
proof (induction rule: list_all2_induct)
  case Nil
  show ?case by (simp add: grouped_order_def first_keys_def)
next
  case (Cons c cs k ks)
  have "\<forall>x \<in> set (concat cs). series_key x \<in> set ks"
    using Cons.hyps(2) by (rule keys_of_blocks)
  with Cons.prems have "\<forall>x \<in> set (concat cs). series_key x \<noteq> k" by auto
  with Cons.hyps(1) have "grouped_order (c @ concat cs) = c @ grouped_order (concat cs)"
    by (rule grouped_order_block)
  with Cons show ?case by simp
qed


lemma output_events_grouped: "grouped_order (output_events calendars) = output_events calendars"
proof -
  let ?evs = "all_events calendars"
  let ?B = "\<lambda>k. map (relabel ?evs) (series_of ?evs k)"
  have fe: "final_events (group_events ?evs) = concat (map ?B (first_keys ?evs))"
    by (simp add: final_events_grouped grouped_order_def map_concat comp_def)
  obtain cs where cs: "list_all2 (\<lambda>c b. set c \<subseteq> set b) cs (map ?B (first_keys ?evs))"
    and out: "output_events calendars = concat cs"
    using dedup_blocks [of "map ?B (first_keys ?evs)" "\<lparr>components = [], added_events = {}, warnings = []\<rparr>"]
    unfolding output_events_def fe dedup_def by auto
  have "list_all2 (\<lambda>c k. set c \<subseteq> set (?B k)) cs (first_keys ?evs)"
    using cs by (simp add: list_all2_map2)
  moreover have "\<forall>x \<in> set c. series_key x = k" if "set c \<subseteq> set (?B k)" for c k
    using that by (auto simp: series_key_relabel series_of_def)
  ultimately have "list_all2 (\<lambda>c k. \<forall>x \<in> set c. series_key x = k) cs (first_keys ?evs)"
    by (rule list_all2_mono)
  then show ?thesis
    unfolding out using distinct_first_keys by (rule grouped_order_blocks)
qed

lemma relabel_output_events:
  assumes "ev \<in> set (output_events calendars)"
  shows "relabel (output_events calendars) ev = ev"
proof -
  let ?evs = "all_events calendars" and ?out = "output_events calendars"
  let ?k = "series_key ev"
  have uid: "UID x = Some (group_uid ?evs (series_key x))" if "x \<in> set ?out" for x
  proof -
    from that obtain a where "x = relabel ?evs a" by (rule output_events_relabelled)
    then show ?thesis by (simp add: series_key_relabel UID_relabel)
  qed
  from assms have "ev \<in> set (series_of ?out ?k)" by (simp add: series_of_def)
  then obtain f r where g: "series_of ?out ?k = f # r"
    by (cases "series_of ?out ?k") auto
  have "select_master f r \<in> set (series_of ?out ?k)"
    unfolding g by (rule select_master_in_group)
  then have m: "select_master f r \<in> set ?out" "series_key (select_master f r) = ?k"
    by (simp_all add: series_of_def)
  from uid [OF m(1)] m(2) have "UID (select_master f r) = Some (group_uid ?evs ?k)" by simp
  then have "canonical_uid ?k (select_master f r) = group_uid ?evs ?k"
    by (simp add: canonical_uid_def group_uid_nonempty)
  then have "group_uid ?out ?k = group_uid ?evs ?k"
    by (simp add: group_uid_def g)
  with uid [OF assms] show ?thesis by (simp add: relabel_def)
qed

lemma dedup_all_kept:
  assumes "\<forall>ev \<in> set evs. DTSTART ev \<noteq> None" and "distinct (map signature_of evs)"
  shows "components (dedup evs) = evs"
  using assms
proof (induction evs rule: rev_induct)
  case Nil
  show ?case by (simp add: dedup_Nil)
next
  case (snoc ev evs)
  from snoc.prems obtain s where s: "signature_of ev = Some s"
    by (cases "signature_of ev") (auto simp: signature_of_None)
  from snoc.prems s have "s \<notin> added_events (dedup evs)"
    by (auto simp: added_events_dedup)
  with snoc s show ?case by (simp add: dedup_snoc dedup_step_cases)
qed

lemma second_pass_events:
  "output_events [\<lparr>properties = ps, subcomponents = map VEVENT (output_events calendars)\<rparr>]
     = output_events calendars"
proof -
  let ?out = "output_events calendars"
  have "final_events (group_events ?out) = map (relabel ?out) ?out"
    by (simp add: final_events_grouped output_events_grouped)
  also have "\<dots> = ?out"
    by (rule map_idI) (rule relabel_output_events)
  finally have fe: "final_events (group_events ?out) = ?out" .
  have "components (dedup ?out) = ?out"
  proof (rule dedup_all_kept)
    show "\<forall>ev \<in> set ?out. DTSTART ev \<noteq> None"
      unfolding output_events_def using components_dedup_DTSTART by blast
    show "distinct (map signature_of ?out)"
      unfolding output_events_def by (rule distinct_components_dedup)
  qed
  then show ?thesis
    unfolding output_events_def [of "[_]"] all_events_single fe .
qed

lemma second_pass_header:
  "process_calendars [cal_plain] = Some (cal_repaired, [])
   \<and> (case process_calendars [cal_repaired] of
         None \<Rightarrow> False
       | Some (again, lg) \<Rightarrow>
           subcomponents again = subcomponents cal_repaired
           \<and> length (properties cal_repaired) = 10 \<and> length (properties again) = 19)"
  by code_simp

section \<open>The properties of the specification\<close>

text \<open>
  C1. For a non-empty list of calendars \<^verbatim>\<open>process_calendars\<close> returns a merged document,
  and no two events at different positions of its component list have the same signature:
  the tuples the loop compares are pairwise different, and so are the pairs of the
  identifier and the effective date (the \<^verbatim>\<open>RECURRENCE-ID\<close> timestamp if present, else
  the \<^verbatim>\<open>DTSTART\<close> timestamp).
\<close>

theorem no_duplicate_signatures:
  assumes "calendars \<noteq> []"
  shows "\<exists>merged lg. process_calendars calendars = Some (merged, lg)
           \<and> subcomponents merged = map VEVENT (output_events calendars)
           \<and> distinct (map signature_of (output_events calendars))
           \<and> (\<forall>i j. i < j \<and> j < length (output_events calendars) \<longrightarrow>
                 (UID (output_events calendars ! i), effective_date (output_events calendars ! i))
                 \<noteq> (UID (output_events calendars ! j), effective_date (output_events calendars ! j)))"
proof -
  let ?out = "output_events calendars"
  have d: "distinct (map signature_of ?out)"
    unfolding output_events_def by (rule distinct_components_dedup)
  have start: "DTSTART ev \<noteq> None" if "ev \<in> set ?out" for ev
    using that unfolding output_events_def by (rule components_dedup_DTSTART)
  have "(UID (?out ! i), effective_date (?out ! i)) \<noteq> (UID (?out ! j), effective_date (?out ! j))"
    if "i < j" "j < length ?out" for i j
  proof
    assume eq: "(UID (?out ! i), effective_date (?out ! i)) = (UID (?out ! j), effective_date (?out ! j))"
    from that have "?out ! i \<in> set ?out" "?out ! j \<in> set ?out" by simp_all
    then have "signature_of (?out ! i) = signature_of (?out ! j)"
      using eq by (simp add: signature_by_effective_date start)
    with that have "map signature_of ?out ! i = map signature_of ?out ! j" by simp
    moreover from that have "i < length (map signature_of ?out)" "j < length (map signature_of ?out)"
      by simp_all
    ultimately have "i = j"
      using d by (simp only: nth_eq_iff_index_eq)
    with that show False by simp
  qed
  with d show ?thesis
    by (simp add: process_calendars_Some [OF assms])
qed

theorem no_duplicate_signatures_witness:
  "[cal_series, cal_plain] \<noteq> []
   \<and> (\<exists>merged lg. process_calendars [cal_series, cal_plain] = Some (merged, lg))
   \<and> length (output_events [cal_series, cal_plain]) = 2
   \<and> (UID (output_events [cal_series, cal_plain] ! 0), effective_date (output_events [cal_series, cal_plain] ! 0))
     \<noteq> (UID (output_events [cal_series, cal_plain] ! 1), effective_date (output_events [cal_series, cal_plain] ! 1))"
proof -
  have ne: "[cal_series, cal_plain] \<noteq> []" by simp
  have len: "length (output_events [cal_series, cal_plain]) = 2" by code_simp
  from no_duplicate_signatures [OF ne] len show ?thesis by auto
qed

text \<open>
  C3. Every event of a group, the master included, leaves the merging loop with the
  group's canonical identifier: the events that reach deduplication are the input events,
  each once, with the identifier of their series written over their own. Hence in the
  merged document two events with the same series key have the same identifier, and the
  identifier of every event is present and not empty.
\<close>

theorem uid_propagated:
  assumes "calendars \<noteq> []"
  shows "\<exists>merged lg. process_calendars calendars = Some (merged, lg)
           \<and> subcomponents merged = map VEVENT (output_events calendars)
           \<and> (\<forall>(key, first, rest) \<in> set (group_events (all_events calendars)).
                 \<forall>ev \<in> set (process_group (key, first, rest)).
                   UID ev = Some (canonical_uid key (select_master first rest)))
           \<and> final_events (group_events (all_events calendars))
               = map (relabel (all_events calendars)) (grouped_order (all_events calendars))
           \<and> mset (grouped_order (all_events calendars)) = mset (all_events calendars)
           \<and> (\<forall>e1 \<in> set (output_events calendars). \<forall>e2 \<in> set (output_events calendars).
                 series_key e1 = series_key e2 \<longrightarrow> UID e1 = UID e2)
           \<and> (\<forall>ev \<in> set (output_events calendars). \<exists>u. UID ev = Some u \<and> u \<noteq> [])"
proof -
  let ?evs = "all_events calendars"
  have same: "UID e1 = UID e2"
    if "e1 \<in> set (output_events calendars)" "e2 \<in> set (output_events calendars)"
      "series_key e1 = series_key e2" for e1 e2
  proof -
    from that(1) obtain a where a: "e1 = relabel ?evs a" by (rule output_events_relabelled)
    from that(2) obtain b where b: "e2 = relabel ?evs b" by (rule output_events_relabelled)
    from that(3) show ?thesis
      unfolding a b by (simp add: series_key_relabel UID_relabel)
  qed
  have present: "\<exists>u. UID ev = Some u \<and> u \<noteq> []" if "ev \<in> set (output_events calendars)" for ev
  proof -
    from that obtain a where "ev = relabel ?evs a" by (rule output_events_relabelled)
    then show ?thesis by (simp add: UID_relabel group_uid_nonempty)
  qed
  have "UID ev = Some (canonical_uid key (select_master first rest))"
    if "ev \<in> set (process_group (key, first, rest))" for key first rest ev
    using that by (auto simp: Let_def)
  then have overwritten: "\<forall>(key, first, rest) \<in> set (group_events ?evs).
      \<forall>ev \<in> set (process_group (key, first, rest)).
        UID ev = Some (canonical_uid key (select_master first rest))"
    by blast
  from process_calendars_Some [OF assms]
  obtain merged lg where "process_calendars calendars = Some (merged, lg)"
    and "subcomponents merged = map VEVENT (output_events calendars)"
    by simp
  moreover note overwritten final_events_grouped [of ?evs] mset_grouped_order [of ?evs]
  moreover from same have "\<forall>e1 \<in> set (output_events calendars). \<forall>e2 \<in> set (output_events calendars).
      series_key e1 = series_key e2 \<longrightarrow> UID e1 = UID e2" by blast
  moreover from present have "\<forall>ev \<in> set (output_events calendars). \<exists>u. UID ev = Some u \<and> u \<noteq> []"
    by blast
  ultimately show ?thesis by blast
qed

theorem uid_propagated_witness:
  "[cal_series, cal_plain] \<noteq> []
   \<and> output_events [cal_series, cal_plain] = [ex_exception\<lparr>UID := Some ''X''\<rparr>, ex_master]
   \<and> all_events [cal_series, cal_plain] = [ex_exception, ex_master, ex_plain]
   \<and> series_key (ex_exception\<lparr>UID := Some ''X''\<rparr>) = series_key ex_master
   \<and> UID (ex_exception\<lparr>UID := Some ''X''\<rparr>) = UID ex_master
   \<and> (\<exists>u. UID ex_master = Some u \<and> u \<noteq> [])"
proof -
  have ne: "[cal_series, cal_plain] \<noteq> []" by simp
  have out: "output_events [cal_series, cal_plain] = [ex_exception\<lparr>UID := Some ''X''\<rparr>, ex_master]"
    by code_simp
  have evs: "all_events [cal_series, cal_plain] = [ex_exception, ex_master, ex_plain]"
    by code_simp
  have key: "series_key (ex_exception\<lparr>UID := Some ''X''\<rparr>) = series_key ex_master"
    by code_simp
  have mem: "ex_exception\<lparr>UID := Some ''X''\<rparr> \<in> set (output_events [cal_series, cal_plain])"
    "ex_master \<in> set (output_events [cal_series, cal_plain])"
    unfolding out by simp_all
  from uid_propagated [OF ne]
  have same: "\<forall>e1 \<in> set (output_events [cal_series, cal_plain]).
          \<forall>e2 \<in> set (output_events [cal_series, cal_plain]).
            series_key e1 = series_key e2 \<longrightarrow> UID e1 = UID e2"
    and present: "\<forall>ev \<in> set (output_events [cal_series, cal_plain]). \<exists>u. UID ev = Some u \<and> u \<noteq> []"
    by blast+
  from same mem key have "UID (ex_exception\<lparr>UID := Some ''X''\<rparr>) = UID ex_master"
    by blast
  moreover from present mem(2) have "\<exists>u. UID ex_master = Some u \<and> u \<noteq> []"
    by blast
  ultimately show ?thesis using ne out evs key by blast
qed

text \<open>
  C4. The deduplication loop runs over the events in grouped order: the series in the
  order in which their keys first appear, the events of one series in flattening order,
  each carrying the identifier of its series. An event of that list is appended to the
  components of the merged document exactly when it has a \<^verbatim>\<open>DTSTART\<close> and no earlier
  event of the list has its signature; the loop reports one warning for every event
  without \<^verbatim>\<open>DTSTART\<close> and nothing for a discarded duplicate.
\<close>

theorem dedup_in_grouped_order:
  assumes "calendars \<noteq> []"
    and "fe = map (relabel (all_events calendars)) (grouped_order (all_events calendars))"
  shows "\<exists>merged lg. process_calendars calendars = Some (merged, lg)
           \<and> subcomponents merged = map VEVENT (output_events calendars)
           \<and> output_events calendars = map (nth fe) (filter (kept fe) [0..<length fe])
           \<and> lg = concat (map series_key_log (all_events calendars))
                  @ map (\<lambda>ev. No_DTSTART (SUMMARY ev)) (filter (\<lambda>ev. DTSTART ev = None) fe)"
proof -
  have fe: "final_events (group_events (all_events calendars)) = fe"
    unfolding assms(2) by (rule final_events_grouped)
  show ?thesis
    by (simp add: process_calendars_Some [OF assms(1)] output_events_def fe
        components_dedup warnings_dedup)
qed

theorem dedup_in_grouped_order_witness:
  "[cal_moved] \<noteq> []
   \<and> map (relabel (all_events [cal_moved])) (grouped_order (all_events [cal_moved]))
       = [ex_master, ex_exception\<lparr>UID := Some ''X''\<rparr>, ex_undated, ex_moved]
   \<and> output_events [cal_moved] = [ex_master, ex_exception\<lparr>UID := Some ''X''\<rparr>]
   \<and> (\<exists>merged. process_calendars [cal_moved] = Some (merged, [No_DTSTART (Some ''Retro'')]))"
proof -
  let ?fe = "[ex_master, ex_exception\<lparr>UID := Some ''X''\<rparr>, ex_undated, ex_moved]"
  have ne: "[cal_moved] \<noteq> []" by simp
  have fe: "?fe = map (relabel (all_events [cal_moved])) (grouped_order (all_events [cal_moved]))"
    by code_simp
  have kept: "map (nth ?fe) (filter (kept ?fe) [0..<length ?fe])
      = [ex_master, ex_exception\<lparr>UID := Some ''X''\<rparr>]"
    by code_simp
  have lg: "concat (map series_key_log (all_events [cal_moved]))
      @ map (\<lambda>ev. No_DTSTART (SUMMARY ev)) (filter (\<lambda>ev. DTSTART ev = None) ?fe)
      = [No_DTSTART (Some ''Retro'')]"
    by code_simp
  from dedup_in_grouped_order [OF ne fe] show ?thesis
    unfolding kept lg using fe by auto
qed

theorem dedup_order_counterexample:
  "all_events [cal_moved] = [ex_master, ex_undated, ex_moved, ex_exception]
   \<and> flattening_order_dedup [cal_moved] = [ex_master, ex_moved]
   \<and> output_events [cal_moved] = [ex_master, ex_exception\<lparr>UID := Some ''X''\<rparr>]
   \<and> output_events [cal_moved] \<noteq> flattening_order_dedup [cal_moved]"
proof -
  have a: "all_events [cal_moved] = [ex_master, ex_undated, ex_moved, ex_exception]"
    by code_simp
  have b: "flattening_order_dedup [cal_moved] = [ex_master, ex_moved]"
    by code_simp
  have c: "output_events [cal_moved] = [ex_master, ex_exception\<lparr>UID := Some ''X''\<rparr>]"
    by code_simp
  have d: "ex_exception\<lparr>UID := Some ''X''\<rparr> \<noteq> ex_moved"
    by code_simp
  from a b c d show ?thesis by simp
qed

text \<open>
  C2. For every group of the partition by series key: its events are those of the
  flattened list with that key, in their order; the master is the first of them that has
  \<^verbatim>\<open>RRULE\<close>, or the first of them when none has; the canonical identifier is the master's
  own when that is present and not empty, and otherwise the text
  \<^verbatim>\<open>summary-location-duration\<close> (joined by hyphens) with every space replaced by an
  underscore, in lower case, followed by \<^verbatim>\<open>@fixed.by.script\<close>; every event of the group
  gets it. When exactly one event of the group has \<^verbatim>\<open>RRULE\<close>, that event is the master
  wherever it stands.
\<close>

theorem master_selection:
  assumes "(key, first, rest) \<in> set (group_events evs)"
    and "key = (summary, location, duration)"
    and "master = select_master first rest"
  shows "first # rest = series_of evs key
    \<and> (\<forall>pre m post. first # rest = pre @ m # post \<and> has_rrule m \<and> (\<forall>x \<in> set pre. \<not> has_rrule x)
          \<longrightarrow> master = m)
    \<and> ((\<forall>x \<in> set (first # rest). \<not> has_rrule x) \<longrightarrow> master = first)
    \<and> (\<forall>u. UID master = Some u \<and> u \<noteq> [] \<longrightarrow> canonical_uid key master = u)
    \<and> (UID master = None \<or> UID master = Some [] \<longrightarrow>
          canonical_uid key master
          = lower (replace_space (summary @ ''-'' @ location @ ''-'' @ str_duration duration))
            @ ''@fixed.by.script'')
    \<and> process_group (key, first, rest)
        = map (\<lambda>ev. ev\<lparr>UID := Some (canonical_uid key master)\<rparr>) (first # rest)
    \<and> (\<forall>m. m \<in> set (first # rest) \<and> has_rrule m
            \<and> (\<forall>x \<in> set (first # rest). has_rrule x \<longrightarrow> x = m)
          \<longrightarrow> master = m)"
proof -
  have "first # rest = series_of evs key"
    using assms(1) by (rule members_group_events)
  moreover have "master = m"
    if "first # rest = pre @ m # post" "has_rrule m" "\<forall>x \<in> set pre. \<not> has_rrule x" for pre m post
    unfolding assms(3) using that by (rule select_master_first_rrule)
  moreover have "master = first" if "\<forall>x \<in> set (first # rest). \<not> has_rrule x"
    unfolding assms(3) using that by (rule select_master_no_rrule)
  moreover have "canonical_uid key master = u" if "UID master = Some u" "u \<noteq> []" for u
    using that by (simp add: canonical_uid_def)
  moreover have "canonical_uid key master
      = lower (replace_space (summary @ ''-'' @ location @ ''-'' @ str_duration duration))
        @ ''@fixed.by.script''"
    if "UID master = None \<or> UID master = Some []"
    using that unfolding assms(2) by (auto simp: canonical_uid_def)
  moreover have "process_group (key, first, rest)
      = map (\<lambda>ev. ev\<lparr>UID := Some (canonical_uid key master)\<rparr>) (first # rest)"
    unfolding assms(3) by (simp add: Let_def)
  moreover have "master = m"
    if "m \<in> set (first # rest)" "has_rrule m" "\<forall>x \<in> set (first # rest). has_rrule x \<longrightarrow> x = m" for m
    unfolding assms(3) using that by (rule select_master_only_rrule)
  ultimately show ?thesis by blast
qed

theorem master_selection_witness:
  "(series_key ex_master, ex_exception, [ex_master]) \<in> set (group_events (all_events [cal_series]))
   \<and> series_key ex_master = (''Standup'', ''Room A'', Some 3600)
   \<and> has_rrule ex_master \<and> \<not> has_rrule ex_exception
   \<and> select_master ex_exception [ex_master] = ex_master
   \<and> canonical_uid (series_key ex_master) (select_master ex_exception [ex_master]) = ''X''
   \<and> (series_key ex_plain, ex_plain, []) \<in> set (group_events (all_events [cal_plain]))
   \<and> select_master ex_plain [] = ex_plain
   \<and> canonical_uid (series_key ex_plain) (select_master ex_plain [])
       = ''standup-room_a-1:00:00@fixed.by.script''"
proof -
  have g1: "(series_key ex_master, ex_exception, [ex_master]) \<in> set (group_events (all_events [cal_series]))"
    by code_simp
  have k1: "series_key ex_master = (''Standup'', ''Room A'', Some 3600)" by code_simp
  have r1: "has_rrule ex_master" "\<not> has_rrule ex_exception" by code_simp+
  have u1: "UID ex_master = Some ''X''" by code_simp
  note t1 = master_selection [OF g1 k1 refl]
  have split: "ex_exception # [ex_master] = [ex_exception] @ ex_master # []" by simp
  from t1 have "\<forall>pre m post. ex_exception # [ex_master] = pre @ m # post \<and> has_rrule m
      \<and> (\<forall>x \<in> set pre. \<not> has_rrule x) \<longrightarrow> select_master ex_exception [ex_master] = m"
    by (elim conjE)
  from this [rule_format, of "[ex_exception]" ex_master "[]"] r1
  have m1: "select_master ex_exception [ex_master] = ex_master" by simp
  from t1 have "\<forall>u. UID (select_master ex_exception [ex_master]) = Some u \<and> u \<noteq> []
      \<longrightarrow> canonical_uid (series_key ex_master) (select_master ex_exception [ex_master]) = u"
    by (elim conjE)
  from this [rule_format, of "''X''"] u1
  have c1: "canonical_uid (series_key ex_master) (select_master ex_exception [ex_master]) = ''X''"
    by (simp add: m1)
  have g2: "(series_key ex_plain, ex_plain, []) \<in> set (group_events (all_events [cal_plain]))"
    by code_simp
  have k2: "series_key ex_plain = (''Standup'', ''Room A'', Some 3600)" by code_simp
  have r2: "\<not> has_rrule ex_plain" by code_simp
  have u2: "UID ex_plain = None" by code_simp
  note t2 = master_selection [OF g2 k2 refl]
  from t2 have "(\<forall>x \<in> set (ex_plain # []). \<not> has_rrule x) \<longrightarrow> select_master ex_plain [] = ex_plain"
    by (elim conjE)
  with r2 have m2: "select_master ex_plain [] = ex_plain" by simp
  have s2: "lower (replace_space (''Standup'' @ ''-'' @ ''Room A'' @ ''-'' @ str_duration (Some 3600)))
      @ ''@fixed.by.script'' = ''standup-room_a-1:00:00@fixed.by.script''"
    by code_simp
  from t2 have "UID (select_master ex_plain []) = None \<or> UID (select_master ex_plain []) = Some [] \<longrightarrow>
      canonical_uid (series_key ex_plain) (select_master ex_plain [])
      = lower (replace_space (''Standup'' @ ''-'' @ ''Room A'' @ ''-'' @ str_duration (Some 3600)))
        @ ''@fixed.by.script''"
    by (elim conjE)
  with u2 have c2: "canonical_uid (series_key ex_plain) (select_master ex_plain [])
      = ''standup-room_a-1:00:00@fixed.by.script''"
    unfolding s2 by (simp add: m2)
  from g1 k1 r1 m1 c1 g2 m2 c2 show ?thesis by blast
qed

theorem synthesized_uid_counterexample:
  "all_events [cal_review] = [ex_review]
   \<and> group_events [ex_review] = [(series_key ex_review, ex_review, [])]
   \<and> series_key ex_review = (''Review'', ''Lab'', None)
   \<and> UID ex_review = None
   \<and> output_events [cal_review] = [ex_review\<lparr>UID := Some ''review-lab-none@fixed.by.script''\<rparr>]
   \<and> spec_synth_uid (series_key ex_review) = ''review_lab_none@fixed.by.script''
   \<and> canonical_uid (series_key ex_review) (select_master ex_review [])
       \<noteq> spec_synth_uid (series_key ex_review)
   \<and> UID ex_blank = Some ''''
   \<and> canonical_uid (series_key ex_blank) (select_master ex_blank [])
       = ''review-lab-none@fixed.by.script''"
proof -
  have "all_events [cal_review] = [ex_review]" by code_simp
  moreover have "group_events [ex_review] = [(series_key ex_review, ex_review, [])]" by code_simp
  moreover have "series_key ex_review = (''Review'', ''Lab'', None)" by code_simp
  moreover have "UID ex_review = None" by code_simp
  moreover have "output_events [cal_review] = [ex_review\<lparr>UID := Some ''review-lab-none@fixed.by.script''\<rparr>]"
    by code_simp
  moreover have "spec_synth_uid (series_key ex_review) = ''review_lab_none@fixed.by.script''"
    by code_simp
  moreover have "canonical_uid (series_key ex_review) (select_master ex_review [])
       \<noteq> spec_synth_uid (series_key ex_review)"
    by code_simp
  moreover have "UID ex_blank = Some ''''" by code_simp
  moreover have "canonical_uid (series_key ex_blank) (select_master ex_blank [])
       = ''review-lab-none@fixed.by.script''"
    by code_simp
  ultimately show ?thesis by blast
qed

text \<open>
  C6. For an event with both \<^verbatim>\<open>DTSTART\<close> and \<^verbatim>\<open>DTEND\<close>, the duration of its series key
  is the end minus the start, taken after a date bound next to a datetime bound has been
  promoted to midnight with the other bound's timezone, whenever that subtraction is
  defined; it is defined unless both bounds are datetimes of which exactly one has a
  timezone. For an event that lacks one of the bounds the duration is \<^verbatim>\<open>None\<close>, which is
  not the zero duration.
\<close>

theorem series_key_duration:
  "(DTSTART ev = Some s \<and> DTEND ev = Some e \<and> py_sub (promote e s) (promote s e) = Inr d
      \<longrightarrow> snd (snd (series_key ev)) = Some d)
   \<and> (is_date s \<and> \<not> is_date e \<longrightarrow>
         promote s e = combine_midnight s (tzinfo_of e) \<and> promote e s = e)
   \<and> (\<not> is_date s \<and> is_date e \<longrightarrow>
         promote e s = combine_midnight e (tzinfo_of s) \<and> promote s e = s)
   \<and> (is_date s = is_date e \<longrightarrow> promote s e = s \<and> promote e s = e)
   \<and> ((\<exists>d. py_sub (promote e s) (promote s e) = Inr d)
        \<longleftrightarrow> \<not> (\<not> is_date s \<and> \<not> is_date e \<and> (tzinfo_of s = None) \<noteq> (tzinfo_of e = None)))
   \<and> (DTSTART ev = None \<or> DTEND ev = None \<longrightarrow> snd (snd (series_key ev)) = None)
   \<and> (None :: timedelta option) \<noteq> Some 0"
proof -
  have "snd (snd (series_key ev)) = Some d"
    if "DTSTART ev = Some s" "DTEND ev = Some e" "py_sub (promote e s) (promote s e) = Inr d"
    using that by (simp add: series_key_def duration_of_both try_duration_promote)
  moreover have "snd (snd (series_key ev)) = None" if "DTSTART ev = None \<or> DTEND ev = None"
    using that by (simp add: series_key_def duration_of_missing)
  moreover note py_sub_promoted_defined [of e s]
  moreover have "is_date s \<and> \<not> is_date e \<longrightarrow>
      promote s e = combine_midnight s (tzinfo_of e) \<and> promote e s = e"
    and "\<not> is_date s \<and> is_date e \<longrightarrow>
      promote e s = combine_midnight e (tzinfo_of s) \<and> promote s e = s"
    and "is_date s = is_date e \<longrightarrow> promote s e = s \<and> promote e s = e"
    by (auto simp: promote_def)
  ultimately show ?thesis by simp
qed

theorem series_key_duration_witness:
  "DTSTART ex_allday = Some (Date (2024, 1, 5))
   \<and> DTEND ex_allday = Some (DateTime (2024, 1, 6) (12, 0, 0) (Some 3600))
   \<and> promote (Date (2024, 1, 5)) (DateTime (2024, 1, 6) (12, 0, 0) (Some 3600))
       = DateTime (2024, 1, 5) (0, 0, 0) (Some 3600)
   \<and> py_sub (DateTime (2024, 1, 6) (12, 0, 0) (Some 3600)) (DateTime (2024, 1, 5) (0, 0, 0) (Some 3600))
       = Inr 129600
   \<and> snd (snd (series_key ex_allday)) = Some 129600
   \<and> DTEND ex_review = None
   \<and> snd (snd (series_key ex_review)) = None"
proof -
  let ?s = "Date (2024, 1, 5)" and ?e = "DateTime (2024, 1, 6) (12, 0, 0) (Some 3600)"
  have s: "DTSTART ex_allday = Some ?s" and e: "DTEND ex_allday = Some ?e"
    by (simp_all add: ex_allday_def)
  have ps: "promote ?s ?e = DateTime (2024, 1, 5) (0, 0, 0) (Some 3600)" by code_simp
  have pe: "promote ?e ?s = ?e" by code_simp
  have sub: "py_sub ?e (DateTime (2024, 1, 5) (0, 0, 0) (Some 3600)) = Inr 129600" by code_simp
  have r: "DTEND ex_review = None" by (simp add: ex_review_def)
  from series_key_duration [of ex_allday ?s ?e 129600] s e sub
  have "snd (snd (series_key ex_allday)) = Some 129600"
    unfolding ps pe by blast
  moreover from series_key_duration [of ex_review] r
  have "snd (snd (series_key ex_review)) = None" by blast
  ultimately show ?thesis using s e ps sub r by blast
qed

theorem series_key_duration_counterexample:
  "DTSTART ex_mixed = Some (DateTime (2024, 1, 5) (9, 0, 0) None)
   \<and> DTEND ex_mixed = Some (DateTime (2024, 1, 5) (10, 0, 0) (Some 0))
   \<and> py_sub (promote (DateTime (2024, 1, 5) (10, 0, 0) (Some 0)) (DateTime (2024, 1, 5) (9, 0, 0) None))
        (promote (DateTime (2024, 1, 5) (9, 0, 0) None) (DateTime (2024, 1, 5) (10, 0, 0) (Some 0)))
       = Inl TypeError
   \<and> snd (snd (series_key ex_mixed)) = Some 0"
  by code_simp

text \<open>
  C10. When both bounds are present and the subtraction in \<^verbatim>\<open>series_key\<close> raises,
  which happens exactly for two datetimes of which one has a timezone and the other has
  none, the exception does not leave \<^verbatim>\<open>series_key\<close>: the handler reports one warning,
  naming the stripped summary, and the key is returned with the zero duration, not with
  \<^verbatim>\<open>None\<close>. The key is then the one of any event of zero length with the same stripped
  summary and location, and in every list that holds both events the grouping puts them
  into the same group.
\<close>

theorem duration_fallback:
  assumes "DTSTART ev = Some s" and "DTEND ev = Some e" and "try_duration s e = Inl x"
  shows "series_key ev = (text_or_empty (SUMMARY ev), text_or_empty (LOCATION ev), Some 0)
    \<and> series_key_log ev = [Duration_Failed (text_or_empty (SUMMARY ev))]
    \<and> snd (snd (series_key ev)) \<noteq> None
    \<and> x = TypeError
    \<and> \<not> is_date s \<and> \<not> is_date e \<and> (tzinfo_of s = None) \<noteq> (tzinfo_of e = None)
    \<and> (\<forall>z s' e'. DTSTART z = Some s' \<and> DTEND z = Some e' \<and> try_duration s' e' = Inr 0
          \<and> text_or_empty (SUMMARY z) = text_or_empty (SUMMARY ev)
          \<and> text_or_empty (LOCATION z) = text_or_empty (LOCATION ev)
        \<longrightarrow> series_key z = series_key ev
          \<and> (\<forall>evs. ev \<in> set evs \<and> z \<in> set evs \<longrightarrow>
                (\<exists>first rest. (series_key ev, first, rest) \<in> set (group_events evs)
                   \<and> ev \<in> set (first # rest) \<and> z \<in> set (first # rest))))"
proof -
  have key: "series_key ev = (text_or_empty (SUMMARY ev), text_or_empty (LOCATION ev), Some 0)"
    using assms by (simp add: series_key_def duration_of_both)
  have warned: "series_key_log ev = [Duration_Failed (text_or_empty (SUMMARY ev))]"
    using assms by (simp add: series_key_log_def)
  have x: "x = TypeError"
    using assms(3) unfolding try_duration_promote by (rule py_sub_error)
  have "\<not> (\<exists>d. py_sub (promote e s) (promote s e) = Inr d)"
    using assms(3) unfolding try_duration_promote by simp
  then have mixed: "\<not> is_date s \<and> \<not> is_date e \<and> (tzinfo_of s = None) \<noteq> (tzinfo_of e = None)"
    unfolding py_sub_promoted_defined by simp
  have together: "series_key z = series_key ev
      \<and> (\<forall>evs. ev \<in> set evs \<and> z \<in> set evs \<longrightarrow>
            (\<exists>first rest. (series_key ev, first, rest) \<in> set (group_events evs)
               \<and> ev \<in> set (first # rest) \<and> z \<in> set (first # rest)))"
    if z: "DTSTART z = Some s'" "DTEND z = Some e'" "try_duration s' e' = Inr 0"
      "text_or_empty (SUMMARY z) = text_or_empty (SUMMARY ev)"
      "text_or_empty (LOCATION z) = text_or_empty (LOCATION ev)" for z s' e'
  proof -
    have same: "series_key z = series_key ev"
      unfolding key using z by (simp add: series_key_def duration_of_both)
    have "\<exists>first rest. (series_key ev, first, rest) \<in> set (group_events evs)
        \<and> ev \<in> set (first # rest) \<and> z \<in> set (first # rest)"
      if "ev \<in> set evs" "z \<in> set evs" for evs
    proof -
      from that(1) obtain first rest where g: "(series_key ev, first, rest) \<in> set (group_events evs)"
        and m: "first # rest = series_of evs (series_key ev)"
        by (rule group_of_member)
      from that same have "ev \<in> set (first # rest)" "z \<in> set (first # rest)"
        unfolding m by (simp_all add: series_of_def)
      with g show ?thesis by blast
    qed
    with same show ?thesis by blast
  qed
  from key warned x mixed together show ?thesis by simp
qed

theorem duration_fallback_witness:
  "DTSTART ex_mixed = Some (DateTime (2024, 1, 5) (9, 0, 0) None)
   \<and> DTEND ex_mixed = Some (DateTime (2024, 1, 5) (10, 0, 0) (Some 0))
   \<and> try_duration (DateTime (2024, 1, 5) (9, 0, 0) None) (DateTime (2024, 1, 5) (10, 0, 0) (Some 0))
       = Inl TypeError
   \<and> series_key ex_mixed = (''Sync'', ''Room B'', Some 0)
   \<and> series_key_log ex_mixed = [Duration_Failed ''Sync'']
   \<and> try_duration (DateTime (2024, 3, 1) (9, 0, 0) None) (DateTime (2024, 3, 1) (9, 0, 0) None) = Inr 0
   \<and> series_key ex_zero = series_key ex_mixed
   \<and> (\<exists>first rest. (series_key ex_mixed, first, rest) \<in> set (group_events [ex_zero, ex_mixed])
         \<and> ex_mixed \<in> set (first # rest) \<and> ex_zero \<in> set (first # rest))"
proof -
  let ?s = "DateTime (2024, 1, 5) (9, 0, 0) None" and ?e = "DateTime (2024, 1, 5) (10, 0, 0) (Some 0)"
  let ?z = "DateTime (2024, 3, 1) (9, 0, 0) None"
  have s: "DTSTART ex_mixed = Some ?s" and e: "DTEND ex_mixed = Some ?e"
    by (simp_all add: ex_mixed_def)
  have t: "try_duration ?s ?e = Inl TypeError" by code_simp
  have z: "DTSTART ex_zero = Some ?z" "DTEND ex_zero = Some ?z" by (simp_all add: ex_zero_def)
  have tz: "try_duration ?z ?z = Inr 0" by code_simp
  have texts: "text_or_empty (SUMMARY ex_mixed) = ''Sync''" "text_or_empty (LOCATION ex_mixed) = ''Room B''"
    "text_or_empty (SUMMARY ex_zero) = ''Sync''" "text_or_empty (LOCATION ex_zero) = ''Room B''"
    by code_simp+
  note fb = duration_fallback [OF s e t]
  from fb have key: "series_key ex_mixed = (''Sync'', ''Room B'', Some 0)"
    unfolding texts by (elim conjE)
  from fb have warned: "series_key_log ex_mixed = [Duration_Failed ''Sync'']"
    unfolding texts by (elim conjE)
  from fb have "\<forall>z s' e'. DTSTART z = Some s' \<and> DTEND z = Some e' \<and> try_duration s' e' = Inr 0
          \<and> text_or_empty (SUMMARY z) = text_or_empty (SUMMARY ex_mixed)
          \<and> text_or_empty (LOCATION z) = text_or_empty (LOCATION ex_mixed)
        \<longrightarrow> series_key z = series_key ex_mixed
          \<and> (\<forall>evs. ex_mixed \<in> set evs \<and> z \<in> set evs \<longrightarrow>
                (\<exists>first rest. (series_key ex_mixed, first, rest) \<in> set (group_events evs)
                   \<and> ex_mixed \<in> set (first # rest) \<and> z \<in> set (first # rest)))"
    by (elim conjE)
  from this [rule_format, of ex_zero ?z ?z] z tz texts
  have same: "series_key ex_zero = series_key ex_mixed"
    and all: "\<forall>evs. ex_mixed \<in> set evs \<and> ex_zero \<in> set evs \<longrightarrow>
      (\<exists>first rest. (series_key ex_mixed, first, rest) \<in> set (group_events evs)
         \<and> ex_mixed \<in> set (first # rest) \<and> ex_zero \<in> set (first # rest))"
    by simp_all
  from all [rule_format, of "[ex_zero, ex_mixed]"]
  have "\<exists>first rest. (series_key ex_mixed, first, rest) \<in> set (group_events [ex_zero, ex_mixed])
         \<and> ex_mixed \<in> set (first # rest) \<and> ex_zero \<in> set (first # rest)"
    by simp
  with s e t key warned tz same show ?thesis by blast
qed

theorem duration_fallback_counterexample:
  "DTSTART ex_mixed = Some (DateTime (2024, 1, 5) (9, 0, 0) None)
   \<and> DTEND ex_mixed = Some (DateTime (2024, 1, 5) (10, 0, 0) (Some 0))
   \<and> try_duration (DateTime (2024, 1, 5) (9, 0, 0) None) (DateTime (2024, 1, 5) (10, 0, 0) (Some 0))
       = Inl TypeError
   \<and> snd (snd (series_key ex_mixed)) = Some 0
   \<and> series_key_log ex_mixed = [Duration_Failed ''Sync'']
   \<and> series_key_log ex_mixed \<noteq> []
   \<and> all_events [cal_mixed] = [ex_mixed]
   \<and> map_option snd (process_calendars [cal_mixed]) = Some [Duration_Failed ''Sync'']"
proof -
  have "DTSTART ex_mixed = Some (DateTime (2024, 1, 5) (9, 0, 0) None)" by code_simp
  moreover have "DTEND ex_mixed = Some (DateTime (2024, 1, 5) (10, 0, 0) (Some 0))" by code_simp
  moreover have "try_duration (DateTime (2024, 1, 5) (9, 0, 0) None)
      (DateTime (2024, 1, 5) (10, 0, 0) (Some 0)) = Inl TypeError"
    by code_simp
  moreover have "snd (snd (series_key ex_mixed)) = Some 0" by code_simp
  moreover have warned: "series_key_log ex_mixed = [Duration_Failed ''Sync'']" by code_simp
  moreover have "series_key_log ex_mixed \<noteq> []" unfolding warned by simp
  moreover have "all_events [cal_mixed] = [ex_mixed]" by code_simp
  moreover have "map_option snd (process_calendars [cal_mixed]) = Some [Duration_Failed ''Sync'']"
    by code_simp
  ultimately show ?thesis by blast
qed

text \<open>
  C5. Header adoption copies the pairs of \<^verbatim>\<open>first_cal.property_items()\<close>, which by
  default descends into the subcomponents: for a first calendar with one event, the
  properties of that event (and the \<^verbatim>\<open>BEGIN\<close> and \<^verbatim>\<open>END\<close> pairs) are among the
  document-level properties of the merged calendar, although they are none of the first
  calendar's document-level properties.
\<close>

theorem header_copy_descends:
  "(\<exists>merged lg. process_calendars [cal_plain] = Some (merged, lg)
      \<and> (''SUMMARY'', Text ''Standup'') \<in> set (properties merged)
      \<and> (''BEGIN'', Text ''VEVENT'') \<in> set (properties merged))
   \<and> properties cal_plain = [(''VERSION'', Text ''2.0''), (''PRODID'', Text ''-//ex//EN'')]
   \<and> subcomponents cal_plain = [VEVENT ex_plain]
   \<and> SUMMARY ex_plain = Some ''Standup''"
proof -
  have "process_calendars [cal_plain] =
     Some (\<lparr>properties = header_copy cal_plain,
             subcomponents = map VEVENT (output_events [cal_plain])\<rparr>,
           concat (map series_key_log (all_events [cal_plain]))
           @ warnings (dedup (final_events (group_events (all_events [cal_plain])))))"
    using process_calendars_Some [of "[cal_plain]"] by simp
  moreover have "(''SUMMARY'', Text ''Standup'') \<in> set (header_copy cal_plain)" by code_simp
  moreover have "(''BEGIN'', Text ''VEVENT'') \<in> set (header_copy cal_plain)" by code_simp
  moreover have "properties cal_plain = [(''VERSION'', Text ''2.0''), (''PRODID'', Text ''-//ex//EN'')]"
    by code_simp
  moreover have "subcomponents cal_plain = [VEVENT ex_plain]" by code_simp
  moreover have "SUMMARY ex_plain = Some ''Standup''" by code_simp
  ultimately show ?thesis by simp
qed

text \<open>
  C8. Giving the same blocks to the merger in another order leaves the partition into
  series unchanged: the same series keys, and under each key the same events. The final
  set of signatures is the same as well, provided that within every series the events
  that master selection can pick (those with \<^verbatim>\<open>RRULE\<close>, or all of them when none has
  \<^verbatim>\<open>RRULE\<close>) give the same canonical identifier.
\<close>

theorem signatures_under_permutation:
  assumes "mset calendars' = mset calendars"
  shows "set (first_keys (all_events calendars')) = set (first_keys (all_events calendars))
    \<and> (\<forall>k. mset (series_of (all_events calendars') k) = mset (series_of (all_events calendars) k))
    \<and> (masters_agree (all_events calendars) \<longrightarrow>
          output_signatures calendars' = output_signatures calendars)"
proof -
  let ?evs = "all_events calendars" and ?evs' = "all_events calendars'"
  have perm: "mset ?evs' = mset ?evs" using assms by (rule mset_all_events)
  then have same: "set ?evs' = set ?evs" by (metis set_mset_mset)
  have keys: "set (first_keys ?evs') = set (first_keys ?evs)"
    by (simp add: set_first_keys same)
  have members: "mset (series_of ?evs' k) = mset (series_of ?evs k)" for k
    by (simp add: series_of_def perm)
  have "output_signatures calendars' = output_signatures calendars" if agree: "masters_agree ?evs"
  proof -
    have "relabel ?evs' ev = relabel ?evs ev" if "ev \<in> set ?evs" for ev
    proof -
      from that have "series_key ev \<in> series_key ` set ?evs" by (rule imageI)
      with same agree have "group_uid ?evs' (series_key ev) = group_uid ?evs (series_key ev)"
        by (rule group_uid_reordered)
      then show ?thesis by (simp add: relabel_def)
    qed
    then have "(\<lambda>ev. signature_of (relabel ?evs' ev)) ` set ?evs
        = (\<lambda>ev. signature_of (relabel ?evs ev)) ` set ?evs"
      by (intro image_cong) simp_all
    then show ?thesis
      unfolding output_signatures_relabel same by simp
  qed
  with keys members show ?thesis by blast
qed

theorem signatures_under_permutation_witness:
  "mset [cal_plain, cal_series] = mset [cal_series, cal_plain]
   \<and> masters_agree (all_events [cal_series, cal_plain])
   \<and> output_signatures [cal_series, cal_plain]
       = {Some (Some ''X'', ''2024-01-12T09:00:00''), Some (Some ''X'', ''2024-01-05T09:00:00'')}
   \<and> output_signatures [cal_plain, cal_series] = output_signatures [cal_series, cal_plain]"
proof -
  have p: "mset [cal_plain, cal_series] = mset [cal_series, cal_plain]" by (simp add: add_mset_commute)
  have a: "masters_agree (all_events [cal_series, cal_plain])" by code_simp
  have s: "output_signatures [cal_series, cal_plain]
       = {Some (Some ''X'', ''2024-01-12T09:00:00''), Some (Some ''X'', ''2024-01-05T09:00:00'')}"
    by code_simp
  from signatures_under_permutation [OF p] a
  have "output_signatures [cal_plain, cal_series] = output_signatures [cal_series, cal_plain]"
    by blast
  with p a s show ?thesis by blast
qed

theorem signatures_under_permutation_counterexample:
  "mset [cal_y, cal_x] = mset [cal_x, cal_y]
   \<and> output_signatures [cal_x, cal_y] = {Some (Some ''X'', ''2024-01-05T09:00:00'')}
   \<and> output_signatures [cal_y, cal_x] = {Some (Some ''Y'', ''2024-01-05T09:00:00'')}
   \<and> output_signatures [cal_y, cal_x] \<noteq> output_signatures [cal_x, cal_y]"
proof -
  have p: "mset [cal_y, cal_x] = mset [cal_x, cal_y]" by (simp add: add_mset_commute)
  have x: "output_signatures [cal_x, cal_y] = {Some (Some ''X'', ''2024-01-05T09:00:00'')}"
    by code_simp
  have y: "output_signatures [cal_y, cal_x] = {Some (Some ''Y'', ''2024-01-05T09:00:00'')}"
    by code_simp
  have "output_signatures [cal_y, cal_x] \<noteq> output_signatures [cal_x, cal_y]"
    unfolding x y by simp
  with p x y show ?thesis by blast
qed

text \<open>
  C9. A file whose blocks were found and of which at least one parsed reaches the
  persistence stage. There the first call on the file system after the read is the copy
  of the file to the sibling path with \<^verbatim>\<open>.backup\<close> appended, so every opening and
  writing of the file comes after it. When the copy succeeds, the backup holds the
  original content, also after the overwrite. When the copy fails, nothing follows it:
  the file has its original content, no opening or writing was attempted, and the failure
  is the last line reported.
\<close>

theorem backup_before_overwrite:
  assumes "chunks = fst (read_file_chunks e (say [Info_Processing file_path] w) file_path)"
    and "chunks \<noteq> []"
    and "calendars = fst (parse_chunks e chunks file_path)"
    and "calendars \<noteq> []"
    and "done = process_file e w file_path"
  shows "backup_path file_path = file_path @ ''.backup''
    \<and> (\<exists>rest. trace done
          = trace w @ [Op_Read file_path, Op_Copy file_path (backup_path file_path)] @ rest
        \<and> (copy_fault e = Copy_OK \<longrightarrow>
              files done (backup_path file_path) = files w file_path
              \<and> Backup_Created (backup_path file_path) \<in> set (logged done)
              \<and> (\<exists>more. rest = Op_Open_Write file_path # more))
        \<and> (copy_fault e \<noteq> Copy_OK \<longrightarrow>
              rest = []
              \<and> files done file_path = files w file_path
              \<and> (\<exists>before. logged done = before @ [Backup_Failed file_path])))"
proof -
  from assms(1-4) obtain fixed_cal w2
    where p: "process_file e w file_path = persist e w2 file_path fixed_cal"
      and w2: "files w2 = files w" "trace w2 = trace w @ [Op_Read file_path]"
      and present: "files w file_path \<noteq> None"
    by (rule process_file_persists)
  from present obtain raw where raw: "files w file_path = Some raw" by blast
  show ?thesis
  proof (cases "copy_fault e = Copy_OK")
    case True
    from persist_copy_ok [OF True, of w2 file_path raw fixed_cal] raw w2
    obtain rest where "trace done
        = trace w @ [Op_Read file_path, Op_Copy file_path (backup_path file_path)]
          @ (Op_Open_Write file_path # rest)"
      and "files done (backup_path file_path) = files w file_path"
      and "Backup_Created (backup_path file_path) \<in> set (logged done)"
      unfolding assms(5) p by auto
    with True show ?thesis by (simp add: backup_path_def)
  next
    case False
    from persist_copy_fails [OF False, of w2 file_path fixed_cal] w2
    have "trace done = trace w @ [Op_Read file_path, Op_Copy file_path (backup_path file_path)] @ []"
      and "files done file_path = files w file_path"
      and "logged done = logged w2 @ [Backup_Failed file_path]"
      unfolding assms(5) p by simp_all
    with False show ?thesis by (simp add: backup_path_def)
  qed
qed


theorem backup_before_overwrite_witness:
  "fst (read_file_chunks (ex_env Copy_OK Write_OK) (say [Info_Processing ''a.ics''] ex_world) ''a.ics'')
     = [''BEGIN:VCALENDAR body END:VCALENDAR'']
   \<and> fst (parse_chunks (ex_env Copy_OK Write_OK) [''BEGIN:VCALENDAR body END:VCALENDAR''] ''a.ics'')
     = [cal_plain]
   \<and> files ex_world ''a.ics'' = Some ex_bytes
   \<and> files (process_file (ex_env Copy_OK Write_OK) ex_world ''a.ics'') ''a.ics.backup'' = Some ex_bytes
   \<and> (\<exists>more. trace (process_file (ex_env Copy_OK Write_OK) ex_world ''a.ics'')
         = [Op_Read ''a.ics'', Op_Copy ''a.ics'' ''a.ics.backup'', Op_Open_Write ''a.ics''] @ more)
   \<and> files (process_file (ex_env (Copy_Fails (Some ''ju'')) Write_OK) ex_world ''a.ics'') ''a.ics''
     = Some ex_bytes
   \<and> trace (process_file (ex_env (Copy_Fails (Some ''ju'')) Write_OK) ex_world ''a.ics'')
     = [Op_Read ''a.ics'', Op_Copy ''a.ics'' ''a.ics.backup'']"
proof -
  let ?ok = "ex_env Copy_OK Write_OK" and ?bad = "ex_env (Copy_Fails (Some ''ju'')) Write_OK"
  let ?chunks = "[''BEGIN:VCALENDAR body END:VCALENDAR'']"
  have c1: "?chunks = fst (read_file_chunks ?ok (say [Info_Processing ''a.ics''] ex_world) ''a.ics'')"
    by code_simp
  have c2: "?chunks = fst (read_file_chunks ?bad (say [Info_Processing ''a.ics''] ex_world) ''a.ics'')"
    by code_simp
  have p1: "[cal_plain] = fst (parse_chunks ?ok ?chunks ''a.ics'')"
    by (simp add: parse_chunks_def ex_env_def)
  have p2: "[cal_plain] = fst (parse_chunks ?bad ?chunks ''a.ics'')"
    by (simp add: parse_chunks_def ex_env_def)
  have w: "files ex_world ''a.ics'' = Some ex_bytes" "trace ex_world = []"
    by (simp_all add: ex_world_def)
  have f: "copy_fault ?ok = Copy_OK" "copy_fault ?bad \<noteq> Copy_OK"
    by (simp_all add: ex_env_def)
  have b: "backup_path ''a.ics'' = ''a.ics.backup''" by (simp add: backup_path_def)
  from backup_before_overwrite [OF c1 _ p1 _ refl] f(1)
  have ok: "files (process_file ?ok ex_world ''a.ics'') ''a.ics.backup'' = Some ex_bytes"
    "\<exists>more. trace (process_file ?ok ex_world ''a.ics'')
         = [Op_Read ''a.ics'', Op_Copy ''a.ics'' ''a.ics.backup'', Op_Open_Write ''a.ics''] @ more"
    unfolding b w by auto
  from backup_before_overwrite [OF c2 _ p2 _ refl] f(2)
  have bad: "files (process_file ?bad ex_world ''a.ics'') ''a.ics'' = Some ex_bytes"
    "trace (process_file ?bad ex_world ''a.ics'') = [Op_Read ''a.ics'', Op_Copy ''a.ics'' ''a.ics.backup'']"
    unfolding b w by auto
  from c1 p1 w(1) ok bad show ?thesis by simp
qed

end
